theory Spec2Isabelle
  imports Complex_Main "HOL-Library.Word" "HOL-Library.AList"
begin

section \<open>The audio streamer of src/app/livebot/lib/audio-streamer.ts\<close>

text \<open>
  The module holds one class, \<open>AudioStreamer\<close>, and one module-level registry of
  worklets. The class decodes chunks of 16-bit PCM, cuts the samples into frames of
  \<open>bufferSize\<close> samples, queues the frames and hands them to the Web Audio context ahead
  of the context's clock. Everything the class does to the browser (nodes created and
  started, timers set and cleared, \<open>console.error\<close>, calls of \<open>onComplete\<close>) is kept in
  the state, next to the fields of the class, so that each method is a function from
  state to state.

  Numbers. Times and samples are JavaScript doubles and Float32 values in the source
  and rationals here. A sample is a 16-bit integer divided by \<open>32768 = 2^15\<close>, which
  Float32 holds exactly. Times are compared, added and passed to \<open>Math.max\<close>; the model
  computes with them as exact rationals.

  Clock. \<open>this.context.currentTime\<close> is read several times during one synchronous call.
  Each method takes the clock reading \<open>now\<close> as a parameter, and all reads within one
  call return it.
\<close>

subsection \<open>Typed arrays and the DataView\<close>

datatype error = RangeError | TypeError | LoadError string | DeviceError string

type_synonym Float32Array = "rat list"

text \<open>
  A \<open>Uint8Array\<close> is a window on an \<open>ArrayBuffer\<close>: \<open>length_u8\<close> bytes (the source's
  \<open>chunk.length\<close>) starting at \<open>byteOffset\<close> of \<open>buffer\<close>.
\<close>

record Uint8Array =
  buffer :: "8 word list"
  byteOffset :: nat
  length_u8 :: nat

definition valid_view :: "Uint8Array \<Rightarrow> bool" where
  "valid_view chunk \<longleftrightarrow> byteOffset chunk + length_u8 chunk \<le> length (buffer chunk)"

text \<open>The bytes the chunk itself shows: \<open>chunk[0], ..., chunk[chunk.length - 1]\<close>.\<close>

definition bytes :: "Uint8Array \<Rightarrow> 8 word list" where
  "bytes chunk = take (length_u8 chunk) (drop (byteOffset chunk) (buffer chunk))"

text \<open>The signed 16-bit integer with low byte \<open>lo\<close> and high byte \<open>hi\<close>.\<close>

definition int16le :: "8 word \<Rightarrow> 8 word \<Rightarrow> int" where
  "int16le lo hi = sint (word_of_int (uint lo + 256 * uint hi) :: 16 word)"

text \<open>
  \<open>new DataView(b).getInt16(pos, true)\<close>: the view covers the whole of \<open>b\<close> from its
  byte 0; reading past the end raises a \<open>RangeError\<close>.
\<close>

definition getInt16 :: "8 word list \<Rightarrow> nat \<Rightarrow> error + int" where
  "getInt16 view pos =
     (if pos + 2 \<le> length view
      then Inr (int16le (view ! pos) (view ! (pos + 1)))
      else Inl RangeError)"

text \<open>\<open>a[i] = v\<close> on a typed array: a write outside the array does nothing.\<close>

definition setIndex :: "Float32Array \<Rightarrow> nat \<Rightarrow> rat \<Rightarrow> Float32Array" where
  "setIndex a i v = (if i < length a then a[i := v] else a)"

text \<open>
  The loop of lines 81-91. The condition \<open>i < chunk.length / 2\<close> is a comparison of
  doubles, so for an odd length the loop makes one more round than the array has
  elements. The \<open>DataView\<close> is built on \<open>chunk.buffer\<close>. The second component collects
  what the \<open>catch\<close> passes to \<open>console.error\<close>.
\<close>

function decodeLoop ::
  "Uint8Array \<Rightarrow> nat \<Rightarrow> Float32Array \<Rightarrow> error list \<Rightarrow> Float32Array \<times> error list" where
  "decodeLoop chunk i float32Array logged =
     (if 2 * i < length_u8 chunk
      then (case getInt16 (buffer chunk) (i * 2) of
              Inr int16 \<Rightarrow>
                decodeLoop chunk (Suc i) (setIndex float32Array i (of_int int16 / 32768)) logged
            | Inl e \<Rightarrow> decodeLoop chunk (Suc i) float32Array (logged @ [e]))
      else (float32Array, logged))"
  by pat_completeness auto
termination
  by (relation "measure (\<lambda>(chunk, i, a, l). length_u8 chunk - 2 * i)") auto

declare decodeLoop.simps [simp del]

text \<open>\<open>new Float32Array(chunk.length / 2)\<close> truncates its argument and is filled with zeros.\<close>

definition decode :: "Uint8Array \<Rightarrow> Float32Array \<times> error list" where
  "decode chunk = decodeLoop chunk 0 (replicate (length_u8 chunk div 2) 0) []"

subsection \<open>The state\<close>

datatype AudioContextState = Suspended | Running

datatype callback = ScheduleNext | PollCheck | RebuildGain

text \<open>A timer is a pending \<open>setTimeout\<close> or a running \<open>setInterval\<close>, with its delay in ms.\<close>

datatype timer = Timeout callback rat | Interval callback rat

datatype gain_cmd = LinearRamp nat rat rat | SetValue nat rat rat

text \<open>Audio nodes are numbered in the order of their creation; message handlers are opaque.\<close>

type_synonym MessageHandler = nat

record WorkletGraph =
  handlers :: "MessageHandler list"
  node :: "nat option"

text \<open>
  One \<open>source.start(startTime)\<close>: the source node, the samples of its buffer, the start
  time, the gain node and the worklet nodes it was connected to.
\<close>

record submission =
  src :: nat
  data :: Float32Array
  startTime :: rat
  gain :: nat
  taps :: "nat list"

record AudioStreamer =
  audioQueue :: "Float32Array list"
  isPlaying :: bool
  processingBuffer :: Float32Array
  scheduledTime :: rat
  gainNode :: nat
  source :: nat
  isStreamComplete :: bool
  checkInterval :: "nat option"
  endOfQueueAudioSource :: "nat option"

text \<open>
  The browser around the object: the sources started so far, the sources whose
  \<open>onended\<close> property holds the handler of lines 140-148 (it is \<open>null\<close> on all others),
  the sources whose \<open>ended\<close> event has been delivered, the timers, the gain automation
  and the nodes connected to \<open>context.destination\<close>, the number of \<open>onComplete\<close> calls,
  the console, and the entry of \<open>registeredWorklets\<close> for this context.
\<close>

record world = AudioStreamer +
  contextState :: AudioContextState
  nodeCount :: nat
  started :: "submission list"
  onended :: "nat set"
  finished :: "nat set"
  timers :: "(nat \<times> timer) list"
  timerCount :: nat
  gainCmds :: "gain_cmd list"
  destination :: "nat set"
  completed :: nat
  console :: "error list"
  registeredWorklets :: "(string \<times> WorkletGraph) list"

text \<open>The private fields that are never assigned after their initialisation.\<close>

definition sampleRate :: rat where
  "sampleRate = 24000"

definition bufferSize :: nat where
  "bufferSize = 7680"

definition initialBufferTime :: rat where
  "initialBufferTime = 1 / 10"

definition SCHEDULE_AHEAD_TIME :: rat where
  "SCHEDULE_AHEAD_TIME = 2 / 10"

text \<open>
  The constructor: a gain node connected to the destination, a source node that is never
  used again, empty buffers. The context and what has been registered for it come from
  outside.
\<close>

definition construct :: "AudioContextState \<Rightarrow> (string \<times> WorkletGraph) list \<Rightarrow> world" where
  "construct st reg =
     \<lparr>audioQueue = [], isPlaying = False, processingBuffer = [], scheduledTime = 0,
      gainNode = 0, source = 1, isStreamComplete = False, checkInterval = None,
      endOfQueueAudioSource = None,
      contextState = st, nodeCount = 2, started = [], onended = {}, finished = {},
      timers = [], timerCount = 0, gainCmds = [], destination = {0}, completed = 0,
      console = [], registeredWorklets = reg\<rparr>"

subsection \<open>Timers\<close>

text \<open>\<open>setTimeout\<close> and \<open>setInterval\<close> return positive identifiers from one counter.\<close>

definition setTimer :: "timer \<Rightarrow> world \<Rightarrow> nat \<times> world" where
  "setTimer t s =
     (let ident = Suc (timerCount s)
      in (ident, s\<lparr>timers := timers s @ [(ident, t)], timerCount := ident\<rparr>))"

definition clearInterval :: "nat \<Rightarrow> world \<Rightarrow> world" where
  "clearInterval ident s = s\<lparr>timers := filter (\<lambda>(i, t). i \<noteq> ident) (timers s)\<rparr>"

subsection \<open>addPCM16: decoding and frame assembly\<close>

text \<open>The loop of lines 100-104.\<close>

function sliceLoop :: "world \<Rightarrow> world" where
  "sliceLoop s =
     (if bufferSize \<le> length (processingBuffer s)
      then sliceLoop
             (s\<lparr>audioQueue := audioQueue s @ [take bufferSize (processingBuffer s)],
                processingBuffer := drop bufferSize (processingBuffer s)\<rparr>)
      else s)"
  by pat_completeness auto
termination
  by (relation "measure (\<lambda>s. length (processingBuffer s))") (auto simp: bufferSize_def)

declare sliceLoop.simps [simp del]

subsection \<open>scheduleNextBuffer\<close>

text \<open>
  \<open>Object.entries\<close> (line 158) lists the names that are array indices first (a decimal
  numeral without leading zero, below \<open>2^32 - 1\<close>) by increasing value, then the other
  names in the order in which they were added.
\<close>

fun parseDigits :: "string \<Rightarrow> nat \<Rightarrow> nat option" where
  "parseDigits [] acc = Some acc"
| "parseDigits (c # cs) acc =
     (case map_of
             [(CHR ''0'', 0), (CHR ''1'', 1), (CHR ''2'', 2), (CHR ''3'', 3), (CHR ''4'', 4),
              (CHR ''5'', 5), (CHR ''6'', 6), (CHR ''7'', 7), (CHR ''8'', 8), (CHR ''9'', 9)] c of
        None \<Rightarrow> None
      | Some d \<Rightarrow> parseDigits cs (10 * acc + d))"

definition arrayIndex :: "string \<Rightarrow> nat option" where
  "arrayIndex name =
     (case name of
        [] \<Rightarrow> None
      | c # cs \<Rightarrow>
          if c = CHR ''0'' \<and> cs \<noteq> [] then None
          else (case parseDigits name 0 of
                  None \<Rightarrow> None
                | Some n \<Rightarrow> if n < 2 ^ 32 - 1 then Some n else None))"

definition entries :: "(string \<times> WorkletGraph) list \<Rightarrow> (string \<times> WorkletGraph) list" where
  "entries reg =
     map snd
       (sort_key fst
          (List.map_filter (\<lambda>p. map_option (\<lambda>n. (n, p)) (arrayIndex (fst p))) reg)) @
     filter (\<lambda>p. arrayIndex (fst p) = None) reg"

text \<open>
  The worklet nodes of the registry, in the order of \<open>Object.entries\<close> (an entry without
  a node is skipped).
\<close>

definition workletNodes :: "(string \<times> WorkletGraph) list \<Rightarrow> nat list" where
  "workletNodes reg =
     concat (map (\<lambda>(name, graph). case node graph of None \<Rightarrow> [] | Some n \<Rightarrow> [n]) (entries reg))"

definition duration :: "Float32Array \<Rightarrow> rat" where
  "duration audioData = of_nat (length audioData) / sampleRate"

text \<open>
  One round of the loop of lines 127-181, after \<open>shift()\<close> has taken \<open>audioData\<close> from the
  queue. \<open>createBuffer\<close> raises for a buffer of length 0; no frame in the queue is empty
  (lemma \<open>queued_frames_nonempty\<close>), and the model has no branch for it.
\<close>

definition submit :: "rat \<Rightarrow> Float32Array \<Rightarrow> world \<Rightarrow> world" where
  "submit now audioData s =
     (let newSource = nodeCount s;
          s1 = s\<lparr>nodeCount := Suc newSource\<rparr>;
          s2 = (if audioQueue s1 = []
                then s1\<lparr>onended :=
                          insert newSource
                            (case endOfQueueAudioSource s1 of
                               None \<Rightarrow> onended s1
                             | Some old \<Rightarrow> onended s1 - {old}),
                        endOfQueueAudioSource := Some newSource\<rparr>
                else s1);
          nodes = workletNodes (registeredWorklets s2);
          s3 = s2\<lparr>destination := destination s2 \<union> set nodes\<rparr>;
          start = max (scheduledTime s3) now
      in s3\<lparr>started :=
               started s3 @
                 [\<lparr>src = newSource, data = audioData, startTime = start,
                   gain = gainNode s3, taps = nodes\<rparr>],
             scheduledTime := start + duration audioData\<rparr>)"

text \<open>
  The loop of lines 127-181. Line 129 compares doubles and the model compares the exact
  values: where the cursor and the end of the window differ by less than the rounding of
  the two sums, the source may decide the other way.
\<close>

function drainLoop :: "rat \<Rightarrow> world \<Rightarrow> world" where
  "drainLoop now s =
     (case audioQueue s of
        [] \<Rightarrow> s
      | audioData # rest \<Rightarrow>
          if scheduledTime s < now + SCHEDULE_AHEAD_TIME
          then drainLoop now (submit now audioData (s\<lparr>audioQueue := rest\<rparr>))
          else s)"
  by pat_completeness auto
termination
  by (relation "measure (\<lambda>(now, s). length (audioQueue s))") (auto simp: submit_def Let_def)

declare drainLoop.simps [simp del]

definition scheduleNextBuffer :: "rat \<Rightarrow> world \<Rightarrow> world" where
  "scheduleNextBuffer now s =
     (let s1 = drainLoop now s
      in if audioQueue s1 = [] \<and> processingBuffer s1 = []
         then (if isStreamComplete s1
               then (let s2 = s1\<lparr>isPlaying := False\<rparr>
                     in case checkInterval s2 of
                          Some ident \<Rightarrow> (clearInterval ident s2)\<lparr>checkInterval := None\<rparr>
                        | None \<Rightarrow> s2)
               else (case checkInterval s1 of
                       None \<Rightarrow>
                         (let (ident, s2) = setTimer (Interval PollCheck 100) s1
                          in s2\<lparr>checkInterval := Some ident\<rparr>)
                     | Some ident \<Rightarrow> s1))
         else snd (setTimer
                     (Timeout ScheduleNext (max 0 ((scheduledTime s1 - now) * 1000 - 50)))
                     s1))"

text \<open>The callback of the interval, lines 192-199.\<close>

definition pollCheck :: "rat \<Rightarrow> world \<Rightarrow> world" where
  "pollCheck now s =
     (if audioQueue s \<noteq> [] \<or> bufferSize \<le> length (processingBuffer s)
      then scheduleNextBuffer now s
      else s)"

definition addPCM16 :: "rat \<Rightarrow> Uint8Array \<Rightarrow> world \<Rightarrow> world" where
  "addPCM16 now chunk s =
     (let (float32Array, logged) = decode chunk;
          s1 = s\<lparr>console := console s @ logged\<rparr>;
          s2 = sliceLoop (s1\<lparr>processingBuffer := processingBuffer s1 @ float32Array\<rparr>)
      in if \<not> isPlaying s2
         then scheduleNextBuffer now
                (s2\<lparr>isPlaying := True, scheduledTime := now + initialBufferTime\<rparr>)
         else s2)"

subsection \<open>stop, resume, complete\<close>

definition stop :: "rat \<Rightarrow> world \<Rightarrow> world" where
  "stop now s =
     (let s1 = s\<lparr>isPlaying := False, isStreamComplete := True, audioQueue := [],
                 processingBuffer := [], scheduledTime := now\<rparr>;
          s2 = (case checkInterval s1 of
                  Some ident \<Rightarrow> (clearInterval ident s1)\<lparr>checkInterval := None\<rparr>
                | None \<Rightarrow> s1);
          s3 = s2\<lparr>gainCmds := gainCmds s2 @ [LinearRamp (gainNode s2) 0 (now + 1 / 10)]\<rparr>
      in snd (setTimer (Timeout RebuildGain 200) s3))"

text \<open>The callback of the timeout of \<open>stop\<close>, lines 229-233.\<close>

definition rebuildGain :: "world \<Rightarrow> world" where
  "rebuildGain s =
     s\<lparr>gainNode := nodeCount s, nodeCount := Suc (nodeCount s),
       destination := insert (nodeCount s) (destination s - {gainNode s})\<rparr>"

text \<open>
  \<open>resume\<close> awaits \<open>context.resume()\<close> when the context is suspended; \<open>outcome\<close> is the
  rejection of that promise, if any. The model is the call taken as one step: what runs
  between the \<open>await\<close> and the continuation comes before it in a trace.
\<close>

definition resume :: "rat \<Rightarrow> error option \<Rightarrow> world \<Rightarrow> (error + unit) \<times> world" where
  "resume now outcome s =
     (let resumed =
            (Inr (),
             s\<lparr>contextState := Running, isStreamComplete := False,
               scheduledTime := now + initialBufferTime,
               gainCmds := gainCmds s @ [SetValue (gainNode s) 1 now]\<rparr>)
      in case contextState s of
           Running \<Rightarrow> resumed
         | Suspended \<Rightarrow> (case outcome of None \<Rightarrow> resumed | Some e \<Rightarrow> (Inl e, s)))"

text \<open>\<open>this.onComplete()\<close>: the callback is the caller's; the model counts its calls.\<close>

definition onComplete :: "world \<Rightarrow> world" where
  "onComplete s = s\<lparr>completed := Suc (completed s)\<rparr>"

definition complete :: "rat \<Rightarrow> world \<Rightarrow> world" where
  "complete now s =
     (let s1 = s\<lparr>isStreamComplete := True\<rparr>
      in if 0 < length (processingBuffer s1)
         then (let s2 = s1\<lparr>audioQueue := audioQueue s1 @ [processingBuffer s1],
                           processingBuffer := []\<rparr>
               in if isPlaying s2 then scheduleNextBuffer now s2 else s2)
         else onComplete s1)"

subsection \<open>The end of a source\<close>

text \<open>
  The context delivers \<open>ended\<close> once to each started source. The handler of lines
  140-148 runs when the \<open>onended\<close> property of the source still holds it.
\<close>

definition endedHandler :: "nat \<Rightarrow> world \<Rightarrow> world" where
  "endedHandler this_source s =
     (if audioQueue s = [] \<and> endOfQueueAudioSource s = Some this_source
      then onComplete (s\<lparr>endOfQueueAudioSource := None\<rparr>)
      else s)"

definition sourceEnded :: "nat \<Rightarrow> world \<Rightarrow> world" where
  "sourceEnded x s =
     (if x \<in> src ` set (started s) \<and> x \<notin> finished s
      then (let s1 = s\<lparr>finished := insert x (finished s)\<rparr>
            in if x \<in> onended s1 then endedHandler x s1 else s1)
      else s)"

subsection \<open>addWorklet\<close>

text \<open>
  The registry entry of the context is a plain object: reading a name that it does not
  own finds what every object inherits (\<open>toString\<close>, \<open>constructor\<close>, ...), which is
  truthy and has no \<open>handlers\<close>, so that \<open>.handlers.push\<close> raises a \<open>TypeError\<close> before
  the \<open>try\<close>.
\<close>

definition inheritedNames :: "string list" where
  "inheritedNames =
     [''constructor'', ''hasOwnProperty'', ''isPrototypeOf'', ''propertyIsEnumerable'',
      ''toLocaleString'', ''toString'', ''valueOf'', ''__proto__'', ''__defineGetter__'',
      ''__defineSetter__'', ''__lookupGetter__'', ''__lookupSetter__'']"

text \<open>
  \<open>outcome\<close> is what \<open>addModule\<close> or \<open>new AudioWorkletNode\<close> raises, if anything. The
  source text of the worklet only decides that outcome and is not a parameter here. The
  call is taken as one step, as for \<open>resume\<close>.
\<close>

definition addWorklet ::
  "string \<Rightarrow> MessageHandler \<Rightarrow> error option \<Rightarrow> world \<Rightarrow> (error + unit) \<times> world" where
  "addWorklet workletName handler outcome s =
     (let workletsRecord = registeredWorklets s
      in case map_of workletsRecord workletName of
           Some graph \<Rightarrow>
             (Inr (),
              s\<lparr>registeredWorklets :=
                  AList.update workletName
                    (graph\<lparr>handlers := handlers graph @ [handler]\<rparr>) workletsRecord\<rparr>)
         | None \<Rightarrow>
             if workletName \<in> set inheritedNames then (Inl TypeError, s)
             else
               (let s1 = s\<lparr>registeredWorklets :=
                             workletsRecord @ [(workletName, \<lparr>handlers = [handler], node = None\<rparr>)]\<rparr>
                in case outcome of
                     None \<Rightarrow>
                       (Inr (),
                        s1\<lparr>registeredWorklets :=
                             map (\<lambda>(name, graph).
                                    if name = workletName
                                    then (name, graph\<lparr>node := Some (nodeCount s1)\<rparr>)
                                    else (name, graph))
                               (registeredWorklets s1),
                           nodeCount := Suc (nodeCount s1)\<rparr>)
                   | Some e \<Rightarrow> (Inl e, s1\<lparr>console := console s1 @ [e]\<rparr>)))"

subsection \<open>Traces\<close>

text \<open>
  What can happen to a streamer: a call of one of its methods, a timer that fires, a
  source that ends. A timer or a source that does not exist, and a source that has
  ended already, leave the state as it is. A timeout that fires is no longer pending.
  Any pending timer may fire at any time: the delays are recorded and not enforced.
\<close>

datatype event =
    AddPCM16 Uint8Array
  | Complete
  | Stop
  | Resume "error option"
  | AddWorklet string MessageHandler "error option"
  | Fire nat
  | Ended nat

definition runCallback :: "rat \<Rightarrow> callback \<Rightarrow> world \<Rightarrow> world" where
  "runCallback now cb s =
     (case cb of
        ScheduleNext \<Rightarrow> scheduleNextBuffer now s
      | PollCheck \<Rightarrow> pollCheck now s
      | RebuildGain \<Rightarrow> rebuildGain s)"

definition fireTimer :: "rat \<Rightarrow> nat \<Rightarrow> world \<Rightarrow> world" where
  "fireTimer now ident s =
     (case map_of (timers s) ident of
        None \<Rightarrow> s
      | Some (Timeout cb delay) \<Rightarrow> runCallback now cb (clearInterval ident s)
      | Some (Interval cb delay) \<Rightarrow> runCallback now cb s)"

fun step :: "rat \<Rightarrow> event \<Rightarrow> world \<Rightarrow> world" where
  "step now (AddPCM16 chunk) s = addPCM16 now chunk s"
| "step now Complete s = complete now s"
| "step now Stop s = stop now s"
| "step now (Resume outcome) s = snd (resume now outcome s)"
| "step now (AddWorklet workletName handler outcome) s =
     snd (addWorklet workletName handler outcome s)"
| "step now (Fire ident) s = fireTimer now ident s"
| "step now (Ended x) s = sourceEnded x s"

fun run :: "(rat \<times> event) list \<Rightarrow> world \<Rightarrow> world" where
  "run [] s = s"
| "run ((now, e) # es) s = run es (step now e s)"

subsection \<open>What is observed of a state\<close>

text \<open>
  A frame leaves the queue only through \<open>shift()\<close> in \<open>scheduleNextBuffer\<close>, which starts
  it on a source in the same round, or through \<open>stop\<close>, which drops the queue. So the
  frames made so far are those of the started sources followed by those still queued.
\<close>

definition frames :: "world \<Rightarrow> Float32Array list" where
  "frames s = map data (started s) @ audioQueue s"

definition samples :: "world \<Rightarrow> rat list" where
  "samples s = concat (frames s) @ processingBuffer s"

text \<open>The samples an event feeds in: those decoded from the chunk of an \<open>addPCM16\<close>.\<close>

definition fedOf :: "event \<Rightarrow> rat list" where
  "fedOf e = (case e of AddPCM16 chunk \<Rightarrow> fst (decode chunk) | _ \<Rightarrow> [])"

definition fed :: "(rat \<times> event) list \<Rightarrow> rat list" where
  "fed evs = concat (map (\<lambda>(now, e). fedOf e) evs)"

text \<open>The events that feed a chunk in.\<close>

definition isAddPCM16 :: "event \<Rightarrow> bool" where
  "isAddPCM16 e = (case e of AddPCM16 chunk \<Rightarrow> True | _ \<Rightarrow> False)"

text \<open>
  The sources that have not ended yet and whose \<open>onended\<close> still holds the handler, and
  what is kept true of them: only the source in \<open>endOfQueueAudioSource\<close> can be one, and
  that source is a node that exists.
\<close>

definition armed :: "world \<Rightarrow> nat set" where
  "armed s = onended s - finished s"

definition markerInv :: "world \<Rightarrow> bool" where
  "markerInv s \<longleftrightarrow>
     armed s \<subseteq> set_option (endOfQueueAudioSource s) \<and>
     (\<forall>x \<in> set_option (endOfQueueAudioSource s). x < nodeCount s)"

text \<open>
  The events that assign the cursor anew: \<open>stop\<close>, \<open>resume\<close>, and \<open>addPCM16\<close> when the
  streamer is not playing (line 109).
\<close>

definition restarts :: "world \<Rightarrow> event \<Rightarrow> bool" where
  "restarts s e =
     (case e of
        Stop \<Rightarrow> True
      | Resume outcome \<Rightarrow> True
      | AddPCM16 chunk \<Rightarrow> \<not> isPlaying s
      | _ \<Rightarrow> False)"

text \<open>
  From \<open>s\<close> to \<open>t\<close> sources were only added to those started, each to start at \<open>c\<close> or
  later.
\<close>

definition grows :: "rat \<Rightarrow> world \<Rightarrow> world \<Rightarrow> bool" where
  "grows c s t \<longleftrightarrow> (\<exists>subs. started t = started s @ subs \<and> (\<forall>x \<in> set subs. c \<le> startTime x))"



definition pending :: "nat \<Rightarrow> world \<Rightarrow> bool" where
  "pending x s \<longleftrightarrow>
     x < nodeCount s \<and> x \<in> src ` set (started s) \<and> x \<notin> finished s \<and>
     (endOfQueueAudioSource s = Some x \<longrightarrow> x \<in> onended s)"

section \<open>Lemmas\<close>

subsection \<open>Decoding\<close>

lemma length_decodeLoop:
  "length (fst (decodeLoop chunk i a l)) = length a"
proof (induction chunk i a l rule: decodeLoop.induct)
  case (1 chunk i a l)
  show ?case
  proof (cases "2 * i < length_u8 chunk")
    case False
    then show ?thesis by (simp add: decodeLoop.simps [of chunk i])
  next
    case True
    show ?thesis
    proof (cases "getInt16 (buffer chunk) (i * 2)")
      case (Inl e)
      with True 1(1)[OF True Inl] show ?thesis
        by (simp add: decodeLoop.simps [of chunk i])
    next
      case (Inr v)
      with True 1(2)[OF True Inr] show ?thesis
        by (simp add: decodeLoop.simps [of chunk i] setIndex_def)
    qed
  qed
qed

lemma length_decode: "length (fst (decode chunk)) = length_u8 chunk div 2"
  by (simp add: decode_def length_decodeLoop)

lemma decodeLoop_nth:
  "j < length a \<Longrightarrow>
   fst (decodeLoop chunk i a l) ! j =
     (if i \<le> j \<and> 2 * j < length_u8 chunk
      then (case getInt16 (buffer chunk) (2 * j) of
              Inr v \<Rightarrow> of_int v / 32768
            | Inl e \<Rightarrow> a ! j)
      else a ! j)"
proof (induction chunk i a l rule: decodeLoop.induct)
  case (1 chunk i a l)
  show ?case
  proof (cases "2 * i < length_u8 chunk")
    case False
    then show ?thesis
      by (auto simp: decodeLoop.simps [of chunk i])
  next
    case True
    show ?thesis
    proof (cases "getInt16 (buffer chunk) (i * 2)")
      case (Inl e)
      have "fst (decodeLoop chunk i a l) = fst (decodeLoop chunk (Suc i) a (l @ [e]))"
        using True Inl by (simp add: decodeLoop.simps [of chunk i])
      with 1(1)[OF True Inl 1(3)] Inl show ?thesis
        by (cases "j = i") (auto simp: mult.commute split: sum.split)
    next
      case (Inr v)
      let ?a = "setIndex a i (of_int v / 32768)"
      have j: "j < length ?a" using 1(3) by (simp add: setIndex_def)
      have "fst (decodeLoop chunk i a l) = fst (decodeLoop chunk (Suc i) ?a l)"
        using True Inr by (simp add: decodeLoop.simps [of chunk i])
      with 1(2)[OF True Inr j] Inr 1(3) True show ?thesis
        by (cases "j = i") (auto simp: mult.commute setIndex_def split: sum.split)
    qed
  qed
qed

lemma decode_eq:
  "fst (decode chunk) =
     map (\<lambda>j. case getInt16 (buffer chunk) (2 * j) of
                 Inr v \<Rightarrow> of_int v / 32768
               | Inl e \<Rightarrow> 0)
       [0..<length_u8 chunk div 2]"
proof (rule nth_equalityI)
  show "length (fst (decode chunk)) = length (map (\<lambda>j. case getInt16 (buffer chunk) (2 * j) of
                 Inr v \<Rightarrow> of_int v / 32768
               | Inl e \<Rightarrow> (0::rat))
       [0..<length_u8 chunk div 2])"
    by (simp add: length_decode)
next
  fix j assume "j < length (fst (decode chunk))"
  then have j: "j < length_u8 chunk div 2" by (simp add: length_decode)
  then have "2 * j < length_u8 chunk" by arith
  with j show "fst (decode chunk) ! j = map (\<lambda>j. case getInt16 (buffer chunk) (2 * j) of
                 Inr v \<Rightarrow> of_int v / 32768
               | Inl e \<Rightarrow> (0::rat))
       [0..<length_u8 chunk div 2] ! j"
    by (simp add: decode_def decodeLoop_nth split: sum.split)
qed

subsection \<open>The loops\<close>

lemma sliceLoop_shape:
  "\<exists>q b. sliceLoop s = s\<lparr>audioQueue := audioQueue s @ q, processingBuffer := b\<rparr> \<and>
         concat q @ b = processingBuffer s \<and>
         (\<forall>f \<in> set q. length f = bufferSize) \<and> length b < bufferSize"
proof (induction s rule: sliceLoop.induct)
  case (1 s)
  show ?case
  proof (cases "bufferSize \<le> length (processingBuffer s)")
    case False
    then have "sliceLoop s = s\<lparr>audioQueue := audioQueue s @ [], processingBuffer := processingBuffer s\<rparr>"
      by (simp add: sliceLoop.simps [of s])
    with False show ?thesis
      by (intro exI [of _ "[]"] exI [of _ "processingBuffer s"]) simp
  next
    case True
    let ?f = "take bufferSize (processingBuffer s)"
    let ?s = "s\<lparr>audioQueue := audioQueue s @ [?f],
                processingBuffer := drop bufferSize (processingBuffer s)\<rparr>"
    from 1 [OF True] obtain q b where
      eq: "sliceLoop ?s = ?s\<lparr>audioQueue := audioQueue ?s @ q, processingBuffer := b\<rparr>" and
      cat: "concat q @ b = processingBuffer ?s" and
      len: "\<forall>f \<in> set q. length f = bufferSize" and b: "length b < bufferSize"
      by blast
    have "sliceLoop s = sliceLoop ?s"
      using True by (simp add: sliceLoop.simps [of s])
    with eq have "sliceLoop s = s\<lparr>audioQueue := audioQueue s @ (?f # q), processingBuffer := b\<rparr>"
      by simp
    moreover have "concat (?f # q) @ b = processingBuffer s"
      using cat by simp
    moreover have "\<forall>f \<in> set (?f # q). length f = bufferSize"
      using len True by simp
    ultimately show ?thesis using b by blast
  qed
qed

lemma drainLoop_rule:
  assumes "P s"
    and "\<And>s a rest. \<lbrakk>P s; audioQueue s = a # rest; scheduledTime s < now + SCHEDULE_AHEAD_TIME\<rbrakk>
           \<Longrightarrow> P (submit now a (s\<lparr>audioQueue := rest\<rparr>))"
  shows "P (drainLoop now s)"
  using assms
proof (induction now s rule: drainLoop.induct)
  case (1 now s)
  show ?case
  proof (cases "audioQueue s")
    case Nil
    with 1(2) show ?thesis by (simp add: drainLoop.simps [of now s])
  next
    case (Cons a rest)
    show ?thesis
    proof (cases "scheduledTime s < now + SCHEDULE_AHEAD_TIME")
      case True
      have "P (submit now a (s\<lparr>audioQueue := rest\<rparr>))"
        using 1(2) Cons True by (rule 1(3))
      from 1(1) [OF Cons True this 1(3)] Cons True show ?thesis
        by (simp add: drainLoop.simps [of now s])
    next
      case False
      with Cons 1(2) show ?thesis by (simp add: drainLoop.simps [of now s])
    qed
  qed
qed

lemma samples_submit:
  "audioQueue s = a # rest \<Longrightarrow> samples (submit now a (s\<lparr>audioQueue := rest\<rparr>)) = samples s"
  by (simp add: samples_def frames_def submit_def Let_def)

lemma samples_drainLoop: "samples (drainLoop now s) = samples s"
  by (rule drainLoop_rule [where P = "\<lambda>t. samples t = samples s"]) (simp_all add: samples_submit)

lemma scheduleNextBuffer_fields:
  "audioQueue (scheduleNextBuffer now s) = audioQueue (drainLoop now s)"
  "processingBuffer (scheduleNextBuffer now s) = processingBuffer (drainLoop now s)"
  "started (scheduleNextBuffer now s) = started (drainLoop now s)"
  "scheduledTime (scheduleNextBuffer now s) = scheduledTime (drainLoop now s)"
  "completed (scheduleNextBuffer now s) = completed (drainLoop now s)"
  "onended (scheduleNextBuffer now s) = onended (drainLoop now s)"
  "finished (scheduleNextBuffer now s) = finished (drainLoop now s)"
  "endOfQueueAudioSource (scheduleNextBuffer now s) = endOfQueueAudioSource (drainLoop now s)"
  "isStreamComplete (scheduleNextBuffer now s) = isStreamComplete (drainLoop now s)"
  "nodeCount (scheduleNextBuffer now s) = nodeCount (drainLoop now s)"
  "console (scheduleNextBuffer now s) = console (drainLoop now s)"
  "registeredWorklets (scheduleNextBuffer now s) = registeredWorklets (drainLoop now s)"
  by (simp_all add: scheduleNextBuffer_def Let_def setTimer_def clearInterval_def
      split: option.split prod.split)

lemma samples_scheduleNextBuffer: "samples (scheduleNextBuffer now s) = samples s"
  using samples_drainLoop [of now s]
  by (simp add: samples_def frames_def scheduleNextBuffer_fields)

subsection \<open>Evaluation\<close>

text \<open>The equations that compute the model on an explicit input.\<close>

lemmas model_defs =
  decode_def decodeLoop.simps getInt16_def int16le_def setIndex_def
  construct_def setTimer_def clearInterval_def sliceLoop.simps workletNodes_def entries_def
  arrayIndex_def map_filter_simps duration_def
  submit_def drainLoop.simps scheduleNextBuffer_def pollCheck_def addPCM16_def stop_def
  rebuildGain_def resume_def onComplete_def complete_def endedHandler_def sourceEnded_def
  addWorklet_def runCallback_def fireTimer_def
  sampleRate_def bufferSize_def initialBufferTime_def SCHEDULE_AHEAD_TIME_def Let_def

subsection \<open>Samples are kept\<close>

lemma samples_sliceLoop: "samples (sliceLoop s) = samples s"
proof -
  obtain q b where "sliceLoop s = s\<lparr>audioQueue := audioQueue s @ q, processingBuffer := b\<rparr>"
    and "concat q @ b = processingBuffer s"
    using sliceLoop_shape [of s] by blast
  then show ?thesis by (simp add: samples_def frames_def)
qed

lemma samples_pollCheck: "samples (pollCheck now s) = samples s"
  by (simp add: pollCheck_def samples_scheduleNextBuffer)

lemma samples_addPCM16: "samples (addPCM16 now chunk s) = samples s @ fst (decode chunk)"
proof -
  obtain f l where d: "decode chunk = (f, l)" by (cases "decode chunk")
  let ?s = "s\<lparr>console := console s @ l, processingBuffer := processingBuffer s @ f\<rparr>"
  have "samples (sliceLoop ?s) = samples s @ f"
    by (simp add: samples_sliceLoop) (simp add: samples_def frames_def)
  moreover have "samples ((sliceLoop ?s)\<lparr>isPlaying := True, scheduledTime := now + initialBufferTime\<rparr>)
      = samples (sliceLoop ?s)"
    by (simp add: samples_def frames_def)
  ultimately show ?thesis
    by (simp add: addPCM16_def d Let_def samples_scheduleNextBuffer)
qed

lemma samples_complete: "samples (complete now s) = samples s"
  by (simp add: complete_def Let_def samples_scheduleNextBuffer onComplete_def)
     (simp add: samples_def frames_def)

lemma samples_resume: "samples (snd (resume now outcome s)) = samples s"
  by (simp add: resume_def Let_def samples_def frames_def
      split: AudioContextState.split option.split)

lemma samples_addWorklet: "samples (snd (addWorklet name h outcome s)) = samples s"
  by (simp add: addWorklet_def Let_def samples_def frames_def split: option.split)

lemma samples_fireTimer: "samples (fireTimer now ident s) = samples s"
proof -
  have "samples (clearInterval ident s) = samples s"
    by (simp add: clearInterval_def samples_def frames_def)
  moreover have "\<And>t. samples (rebuildGain t) = samples t"
    by (simp add: rebuildGain_def samples_def frames_def)
  ultimately show ?thesis
    by (simp add: fireTimer_def runCallback_def samples_scheduleNextBuffer samples_pollCheck
        split: option.split timer.split callback.split)
qed

lemma samples_sourceEnded: "samples (sourceEnded x s) = samples s"
  by (simp add: sourceEnded_def endedHandler_def onComplete_def Let_def samples_def frames_def)

lemma samples_step: "e \<noteq> Stop \<Longrightarrow> samples (step now e s) = samples s @ fedOf e"
  by (cases e)
     (simp_all add: fedOf_def samples_addPCM16 samples_complete samples_resume
        samples_addWorklet samples_fireTimer samples_sourceEnded)

lemma samples_run:
  "Stop \<notin> snd ` set evs \<Longrightarrow> samples (run evs s) = samples s @ fed evs"
proof (induction evs arbitrary: s)
  case Nil
  show ?case by (simp add: fed_def)
next
  case (Cons p evs)
  obtain now e where p: "p = (now, e)" by (cases p)
  with Cons.prems have "e \<noteq> Stop" and rest: "Stop \<notin> snd ` set evs" by auto
  then show ?case
    using Cons.IH [OF rest, of "step now e s"]
    by (simp add: p samples_step fed_def)
qed

lemma samples_construct: "samples (construct st reg) = []"
  by (simp add: construct_def samples_def frames_def)

lemma length_fedOf:
  "length (fedOf e) = (case e of AddPCM16 chunk \<Rightarrow> length_u8 chunk div 2 | _ \<Rightarrow> 0)"
  by (simp add: fedOf_def length_decode split: event.split)

subsection \<open>What the scheduler leaves alone\<close>

lemma drainLoop_empty: "audioQueue s = [] \<Longrightarrow> drainLoop now s = s"
  by (simp add: drainLoop.simps [of now s])

lemma submit_keeps:
  "processingBuffer (submit now a s) = processingBuffer s"
  "isPlaying (submit now a s) = isPlaying s"
  "isStreamComplete (submit now a s) = isStreamComplete s"
  "checkInterval (submit now a s) = checkInterval s"
  "timers (submit now a s) = timers s"
  "timerCount (submit now a s) = timerCount s"
  "completed (submit now a s) = completed s"
  "console (submit now a s) = console s"
  "finished (submit now a s) = finished s"
  "registeredWorklets (submit now a s) = registeredWorklets s"
  "gainNode (submit now a s) = gainNode s"
  "gainCmds (submit now a s) = gainCmds s"
  "contextState (submit now a s) = contextState s"
  "audioQueue (submit now a s) = audioQueue s"
  by (simp_all add: submit_def Let_def)

lemma drainLoop_keeps:
  "processingBuffer (drainLoop now s) = processingBuffer s"
  "isPlaying (drainLoop now s) = isPlaying s"
  "isStreamComplete (drainLoop now s) = isStreamComplete s"
  "checkInterval (drainLoop now s) = checkInterval s"
  "timers (drainLoop now s) = timers s"
  "timerCount (drainLoop now s) = timerCount s"
  "completed (drainLoop now s) = completed s"
  "console (drainLoop now s) = console s"
  "finished (drainLoop now s) = finished s"
  "registeredWorklets (drainLoop now s) = registeredWorklets s"
  "gainNode (drainLoop now s) = gainNode s"
  "gainCmds (drainLoop now s) = gainCmds s"
  "contextState (drainLoop now s) = contextState s"
proof -
  show "processingBuffer (drainLoop now s) = processingBuffer s"
    by (rule drainLoop_rule [where P = "\<lambda>t. processingBuffer t = processingBuffer s"])
       (simp_all add: submit_keeps)
  show "isPlaying (drainLoop now s) = isPlaying s"
    by (rule drainLoop_rule [where P = "\<lambda>t. isPlaying t = isPlaying s"])
       (simp_all add: submit_keeps)
  show "isStreamComplete (drainLoop now s) = isStreamComplete s"
    by (rule drainLoop_rule [where P = "\<lambda>t. isStreamComplete t = isStreamComplete s"])
       (simp_all add: submit_keeps)
  show "checkInterval (drainLoop now s) = checkInterval s"
    by (rule drainLoop_rule [where P = "\<lambda>t. checkInterval t = checkInterval s"])
       (simp_all add: submit_keeps)
  show "timers (drainLoop now s) = timers s"
    by (rule drainLoop_rule [where P = "\<lambda>t. timers t = timers s"])
       (simp_all add: submit_keeps)
  show "timerCount (drainLoop now s) = timerCount s"
    by (rule drainLoop_rule [where P = "\<lambda>t. timerCount t = timerCount s"])
       (simp_all add: submit_keeps)
  show "completed (drainLoop now s) = completed s"
    by (rule drainLoop_rule [where P = "\<lambda>t. completed t = completed s"])
       (simp_all add: submit_keeps)
  show "console (drainLoop now s) = console s"
    by (rule drainLoop_rule [where P = "\<lambda>t. console t = console s"])
       (simp_all add: submit_keeps)
  show "finished (drainLoop now s) = finished s"
    by (rule drainLoop_rule [where P = "\<lambda>t. finished t = finished s"])
       (simp_all add: submit_keeps)
  show "registeredWorklets (drainLoop now s) = registeredWorklets s"
    by (rule drainLoop_rule [where P = "\<lambda>t. registeredWorklets t = registeredWorklets s"])
       (simp_all add: submit_keeps)
  show "gainNode (drainLoop now s) = gainNode s"
    by (rule drainLoop_rule [where P = "\<lambda>t. gainNode t = gainNode s"])
       (simp_all add: submit_keeps)
  show "gainCmds (drainLoop now s) = gainCmds s"
    by (rule drainLoop_rule [where P = "\<lambda>t. gainCmds t = gainCmds s"])
       (simp_all add: submit_keeps)
  show "contextState (drainLoop now s) = contextState s"
    by (rule drainLoop_rule [where P = "\<lambda>t. contextState t = contextState s"])
       (simp_all add: submit_keeps)
qed

lemma scheduleNextBuffer_keeps:
  "processingBuffer (scheduleNextBuffer now s) = processingBuffer s"
  "isStreamComplete (scheduleNextBuffer now s) = isStreamComplete s"
  "completed (scheduleNextBuffer now s) = completed s"
  "console (scheduleNextBuffer now s) = console s"
  "finished (scheduleNextBuffer now s) = finished s"
  "registeredWorklets (scheduleNextBuffer now s) = registeredWorklets s"
  by (simp_all add: scheduleNextBuffer_fields drainLoop_keeps)

lemma frames_submit:
  "audioQueue s = a # rest \<Longrightarrow> frames (submit now a (s\<lparr>audioQueue := rest\<rparr>)) = frames s"
  by (simp add: frames_def submit_def Let_def)

lemma frames_drainLoop: "frames (drainLoop now s) = frames s"
  by (rule drainLoop_rule [where P = "\<lambda>t. frames t = frames s"]) (simp_all add: frames_submit)

lemma frames_scheduleNextBuffer: "frames (scheduleNextBuffer now s) = frames s"
  using frames_drainLoop [of now s] by (simp add: frames_def scheduleNextBuffer_fields)

lemma completed_complete:
  "completed (complete now s) = (if processingBuffer s = [] then Suc (completed s) else completed s)"
  by (simp add: complete_def Let_def scheduleNextBuffer_keeps onComplete_def)

lemma completed_sourceEnded_le: "completed (sourceEnded x s) \<le> Suc (completed s)"
  by (simp add: sourceEnded_def endedHandler_def onComplete_def Let_def)

lemma finished_sourceEnded:
  "x \<in> src ` set (started s) \<Longrightarrow> x \<in> finished (sourceEnded x s)"
  by (auto simp add: sourceEnded_def endedHandler_def onComplete_def Let_def)

lemma sourceEnded_noop:
  "\<not> (x \<in> src ` set (started s) \<and> x \<notin> finished s) \<Longrightarrow> sourceEnded x s = s"
  unfolding sourceEnded_def by (simp only: if_False)

lemma sourceEnded_twice: "sourceEnded x (sourceEnded x s) = sourceEnded x s"
proof (cases "x \<in> src ` set (started s) \<and> x \<notin> finished s")
  case False
  then have "sourceEnded x s = s" by (rule sourceEnded_noop)
  then show ?thesis by simp
next
  case True
  then have "x \<in> finished (sourceEnded x s)"
    by (simp add: finished_sourceEnded)
  then show ?thesis
    by (intro sourceEnded_noop) simp
qed

subsection \<open>After the buffers are empty\<close>

lemma scheduleNextBuffer_empty:
  assumes "audioQueue s = []"
  shows "audioQueue (scheduleNextBuffer now s) = []"
    and "started (scheduleNextBuffer now s) = started s"
    and "onended (scheduleNextBuffer now s) = onended s"
    and "endOfQueueAudioSource (scheduleNextBuffer now s) = endOfQueueAudioSource s"
    and "scheduledTime (scheduleNextBuffer now s) = scheduledTime s"
  using assms by (simp_all add: scheduleNextBuffer_fields drainLoop_empty)

text \<open>A state with nothing queued and nothing buffered stays so, and starts nothing.\<close>

lemma quiet_step:
  assumes "audioQueue s = []" and "processingBuffer s = []" and "\<not> isAddPCM16 e"
  shows "audioQueue (step now e s) = []"
    and "processingBuffer (step now e s) = []"
    and "started (step now e s) = started s"
    and "onended (step now e s) = onended s"
proof -
  have q: "audioQueue (clearInterval i s) = []" for i
    using assms(1) by (simp add: clearInterval_def)
  have "audioQueue (step now e s) = [] \<and> processingBuffer (step now e s) = [] \<and>
        started (step now e s) = started s \<and> onended (step now e s) = onended s"
  proof (cases e)
    case (AddPCM16 c)
    with assms(3) show ?thesis by (simp add: isAddPCM16_def)
  next
    case Complete
    with assms show ?thesis by (simp add: complete_def onComplete_def Let_def)
  next
    case Stop
    then show ?thesis
      by (simp add: stop_def setTimer_def clearInterval_def Let_def split: option.split)
  next
    case (Resume outcome)
    with assms show ?thesis
      by (simp add: resume_def Let_def split: AudioContextState.split option.split)
  next
    case (AddWorklet name h outcome)
    with assms show ?thesis
      by (simp add: addWorklet_def Let_def split: option.split)
  next
    case (Fire ident)
    have "audioQueue (fireTimer now ident s) = [] \<and> processingBuffer (fireTimer now ident s) = [] \<and>
          started (fireTimer now ident s) = started s \<and>
          onended (fireTimer now ident s) = onended s"
      using assms(1,2) q
      by (simp add: fireTimer_def runCallback_def pollCheck_def bufferSize_def
          scheduleNextBuffer_empty scheduleNextBuffer_keeps rebuildGain_def
          split: option.split timer.split callback.split)
         (simp add: clearInterval_def)
    with Fire show ?thesis by simp
  next
    case (Ended x)
    with assms show ?thesis
      by (simp add: sourceEnded_def endedHandler_def onComplete_def Let_def)
  qed
  then show "audioQueue (step now e s) = []"
    and "processingBuffer (step now e s) = []"
    and "started (step now e s) = started s"
    and "onended (step now e s) = onended s"
    by simp_all
qed

lemma quiet_run:
  assumes "audioQueue s = []" and "processingBuffer s = []"
    and "\<forall>(now, e) \<in> set evs. \<not> isAddPCM16 e"
  shows "audioQueue (run evs s) = [] \<and> processingBuffer (run evs s) = [] \<and>
         started (run evs s) = started s \<and> onended (run evs s) = onended s"
  using assms
proof (induction evs arbitrary: s)
  case Nil
  then show ?case by simp
next
  case (Cons p evs)
  obtain now e where p: "p = (now, e)" by (cases p)
  with Cons.prems have e: "\<not> isAddPCM16 e" and rest: "\<forall>(now, e) \<in> set evs. \<not> isAddPCM16 e"
    by auto
  note q = quiet_step [OF Cons.prems(1,2) e, of now]
  from Cons.IH [OF q(1) q(2) rest] q(3) q(4) show ?case
    by (simp add: p)
qed

lemma stop_fields:
  "\<not> isPlaying (stop now s)" "isStreamComplete (stop now s)" "audioQueue (stop now s) = []"
  "processingBuffer (stop now s) = []" "scheduledTime (stop now s) = now"
  "checkInterval (stop now s) = None" "started (stop now s) = started s"
  "timers (stop now s) =
     filter (\<lambda>(i, t). Some i \<noteq> checkInterval s) (timers s) @
       [(Suc (timerCount s), Timeout RebuildGain 200)]"
  by (simp_all add: stop_def setTimer_def clearInterval_def Let_def split: option.split)

lemma armed_step:
  assumes "audioQueue s = []" and "processingBuffer s = []"
    and "endOfQueueAudioSource s = Some x" and "x \<notin> finished s"
    and "\<not> isAddPCM16 e" and "e \<noteq> Ended x"
  shows "endOfQueueAudioSource (step now e s) = Some x \<and> x \<notin> finished (step now e s)"
proof (cases e)
  case (AddPCM16 c)
  with assms(5) show ?thesis by (simp add: isAddPCM16_def)
next
  case Complete
  with assms show ?thesis by (simp add: complete_def onComplete_def Let_def)
next
  case Stop
  with assms show ?thesis
    by (simp add: stop_def setTimer_def clearInterval_def Let_def split: option.split)
next
  case (Resume outcome)
  with assms show ?thesis
    by (simp add: resume_def Let_def split: AudioContextState.split option.split)
next
  case (AddWorklet name h outcome)
  with assms show ?thesis
    by (simp add: addWorklet_def Let_def split: option.split)
next
  case (Fire ident)
  have q: "audioQueue (clearInterval i s) = []" for i
    using assms(1) by (simp add: clearInterval_def)
  have "endOfQueueAudioSource (fireTimer now ident s) = Some x \<and>
        x \<notin> finished (fireTimer now ident s)"
    using assms(1-4) q
    by (simp add: fireTimer_def runCallback_def pollCheck_def bufferSize_def
        scheduleNextBuffer_empty scheduleNextBuffer_keeps rebuildGain_def
        split: option.split timer.split callback.split)
       (simp add: clearInterval_def)
  with Fire show ?thesis by simp
next
  case (Ended y)
  with assms show ?thesis
    by (auto simp add: sourceEnded_def endedHandler_def onComplete_def Let_def)
qed

lemma armed_run:
  assumes "audioQueue s = []" and "processingBuffer s = []"
    and "endOfQueueAudioSource s = Some x" and "x \<notin> finished s"
    and "\<forall>(now, e) \<in> set evs. \<not> isAddPCM16 e \<and> e \<noteq> Ended x"
  shows "endOfQueueAudioSource (run evs s) = Some x \<and> x \<notin> finished (run evs s)"
  using assms
proof (induction evs arbitrary: s)
  case Nil
  then show ?case by simp
next
  case (Cons p evs)
  obtain now e where p: "p = (now, e)" by (cases p)
  with Cons.prems(5) have e: "\<not> isAddPCM16 e" "e \<noteq> Ended x"
    and rest: "\<forall>(now, e) \<in> set evs. \<not> isAddPCM16 e \<and> e \<noteq> Ended x"
    by auto
  note q = quiet_step [OF Cons.prems(1,2) e(1), of now]
  note a = armed_step [OF Cons.prems(1-4) e, of now]
  from Cons.IH [OF q(1) q(2) _ _ rest] a show ?case
    by (simp add: p)
qed

subsection \<open>The end-of-queue marker\<close>

lemma markerInv_submit:
  assumes "markerInv s"
  shows "markerInv (submit now a (s\<lparr>audioQueue := rest\<rparr>))"
  using assms
  by (auto simp add: markerInv_def armed_def submit_def Let_def split: option.splits)

lemma markerInv_drainLoop: "markerInv s \<Longrightarrow> markerInv (drainLoop now s)"
  by (rule drainLoop_rule [where P = markerInv]) (simp_all add: markerInv_submit)

lemma markerInv_cong:
  "onended t = onended s \<Longrightarrow> finished t = finished s \<Longrightarrow>
   endOfQueueAudioSource t = endOfQueueAudioSource s \<Longrightarrow> nodeCount s \<le> nodeCount t \<Longrightarrow>
   markerInv s \<Longrightarrow> markerInv t"
  by (auto simp add: markerInv_def armed_def)

lemma markerInv_scheduleNextBuffer:
  "markerInv s \<Longrightarrow> markerInv (scheduleNextBuffer now s)"
  by (rule markerInv_cong [OF _ _ _ _ markerInv_drainLoop [of s now]])
     (simp_all add: scheduleNextBuffer_fields)

lemma sliceLoop_keeps:
  "started (sliceLoop s) = started s" "onended (sliceLoop s) = onended s"
  "finished (sliceLoop s) = finished s"
  "endOfQueueAudioSource (sliceLoop s) = endOfQueueAudioSource s"
  "nodeCount (sliceLoop s) = nodeCount s" "isPlaying (sliceLoop s) = isPlaying s"
  "scheduledTime (sliceLoop s) = scheduledTime s"
  "isStreamComplete (sliceLoop s) = isStreamComplete s"
  "completed (sliceLoop s) = completed s"
proof -
  obtain q b where "sliceLoop s = s\<lparr>audioQueue := audioQueue s @ q, processingBuffer := b\<rparr>"
    using sliceLoop_shape [of s] by blast
  then show "started (sliceLoop s) = started s" "onended (sliceLoop s) = onended s"
    "finished (sliceLoop s) = finished s"
    "endOfQueueAudioSource (sliceLoop s) = endOfQueueAudioSource s"
    "nodeCount (sliceLoop s) = nodeCount s" "isPlaying (sliceLoop s) = isPlaying s"
    "scheduledTime (sliceLoop s) = scheduledTime s"
    "isStreamComplete (sliceLoop s) = isStreamComplete s"
    "completed (sliceLoop s) = completed s"
    by simp_all
qed

lemma markerInv_addPCM16: "markerInv s \<Longrightarrow> markerInv (addPCM16 now chunk s)"
proof -
  assume inv: "markerInv s"
  obtain f l where d: "decode chunk = (f, l)" by (cases "decode chunk")
  let ?s = "sliceLoop (s\<lparr>console := console s @ l, processingBuffer := processingBuffer s @ f\<rparr>)"
  have 1: "markerInv ?s"
    by (rule markerInv_cong [OF _ _ _ _ inv]) (simp_all add: sliceLoop_keeps)
  have 2: "markerInv (?s\<lparr>isPlaying := True, scheduledTime := now + initialBufferTime\<rparr>)"
    by (rule markerInv_cong [OF _ _ _ _ 1]) simp_all
  from 1 2 show ?thesis
    by (simp add: addPCM16_def d Let_def markerInv_scheduleNextBuffer)
qed

lemma markerInv_complete: "markerInv s \<Longrightarrow> markerInv (complete now s)"
proof -
  assume inv: "markerInv s"
  have 1: "markerInv (s\<lparr>isStreamComplete := True, audioQueue := audioQueue s @ [processingBuffer s],
                        processingBuffer := []\<rparr>)"
    by (rule markerInv_cong [OF _ _ _ _ inv]) simp_all
  have 2: "markerInv (onComplete (s\<lparr>isStreamComplete := True\<rparr>))"
    by (rule markerInv_cong [OF _ _ _ _ inv]) (simp_all add: onComplete_def)
  from 1 2 show ?thesis
    by (simp add: complete_def Let_def markerInv_scheduleNextBuffer)
qed

lemma markerInv_fireTimer: "markerInv s \<Longrightarrow> markerInv (fireTimer now ident s)"
proof -
  assume inv: "markerInv s"
  have 1: "markerInv (clearInterval ident s)"
    by (rule markerInv_cong [OF _ _ _ _ inv]) (simp_all add: clearInterval_def)
  have 2: "markerInv (rebuildGain t)" if "markerInv t" for t
    by (rule markerInv_cong [OF _ _ _ _ that]) (simp_all add: rebuildGain_def)
  have 3: "markerInv (pollCheck now t)" if "markerInv t" for t
    using that by (simp add: pollCheck_def markerInv_scheduleNextBuffer)
  from inv 1 2 3 show ?thesis
    by (simp add: fireTimer_def runCallback_def markerInv_scheduleNextBuffer
        split: option.split timer.split callback.split)
qed

lemma markerInv_sourceEnded: "markerInv s \<Longrightarrow> markerInv (sourceEnded x s)"
  by (auto simp add: markerInv_def armed_def sourceEnded_def endedHandler_def onComplete_def Let_def)

lemma markerInv_step: "markerInv s \<Longrightarrow> markerInv (step now e s)"
proof (cases e)
  case (AddPCM16 c)
  assume "markerInv s"
  with AddPCM16 show ?thesis by (simp add: markerInv_addPCM16)
next
  case Complete
  assume "markerInv s"
  with Complete show ?thesis by (simp add: markerInv_complete)
next
  case Stop
  assume inv: "markerInv s"
  have "markerInv (stop now s)"
    by (rule markerInv_cong [OF _ _ _ _ inv])
       (simp_all add: stop_def setTimer_def clearInterval_def Let_def split: option.split)
  with Stop show ?thesis by simp
next
  case (Resume outcome)
  assume inv: "markerInv s"
  have "markerInv (snd (resume now outcome s))"
    by (rule markerInv_cong [OF _ _ _ _ inv])
       (simp_all add: resume_def Let_def split: AudioContextState.split option.split)
  with Resume show ?thesis by simp
next
  case (AddWorklet name h outcome)
  assume inv: "markerInv s"
  have "markerInv (snd (addWorklet name h outcome s))"
    by (rule markerInv_cong [OF _ _ _ _ inv])
       (simp_all add: addWorklet_def Let_def split: option.split)
  with AddWorklet show ?thesis by simp
next
  case (Fire ident)
  assume "markerInv s"
  with Fire show ?thesis by (simp add: markerInv_fireTimer)
next
  case (Ended x)
  assume "markerInv s"
  with Ended show ?thesis by (simp add: markerInv_sourceEnded)
qed

lemma markerInv_run: "markerInv s \<Longrightarrow> markerInv (run evs s)"
proof (induction evs arbitrary: s)
  case Nil
  then show ?case by simp
next
  case (Cons p evs)
  obtain now e where p: "p = (now, e)" by (cases p)
  from Cons.IH [OF markerInv_step [OF Cons.prems, of now e]] show ?case
    by (simp add: p)
qed

lemma markerInv_construct: "markerInv (construct st reg)"
  by (simp add: markerInv_def armed_def construct_def)

lemma supersede:
  assumes "markerInv s" and "endOfQueueAudioSource s = Some old"
  shows "old \<notin> onended (submit now a (s\<lparr>audioQueue := []\<rparr>))"
    and "endOfQueueAudioSource (submit now a (s\<lparr>audioQueue := []\<rparr>)) = Some (nodeCount s)"
    and "nodeCount s \<in> onended (submit now a (s\<lparr>audioQueue := []\<rparr>))"
  using assms by (auto simp add: markerInv_def submit_def Let_def)

lemma stale_ended:
  "endOfQueueAudioSource s \<noteq> Some x \<Longrightarrow> completed (sourceEnded x s) = completed s"
  by (simp add: sourceEnded_def endedHandler_def Let_def)

subsection \<open>Start times and the cursor\<close>

lemma duration_nonneg: "0 \<le> duration a"
  by (simp add: duration_def sampleRate_def)

lemma grows_refl: "started t = started s \<Longrightarrow> grows now s t"
  by (simp add: grows_def)

lemma grows_cong: "started t' = started t \<Longrightarrow> grows now s t \<Longrightarrow> grows now s t'"
  by (simp add: grows_def)

lemma started_submit:
  "started (submit now a s) =
     started s @ [\<lparr>src = nodeCount s, data = a, startTime = max (scheduledTime s) now,
                   gain = gainNode s, taps = workletNodes (registeredWorklets s)\<rparr>]"
  by (simp add: submit_def Let_def)

lemma scheduledTime_submit:
  "scheduledTime (submit now a s) = max (scheduledTime s) now + duration a"
  by (simp add: submit_def Let_def)

lemma drainLoop_grows:
  "grows now s (drainLoop now s) \<and> scheduledTime s \<le> scheduledTime (drainLoop now s)"
proof (rule drainLoop_rule [where P = "\<lambda>t. grows now s t \<and> scheduledTime s \<le> scheduledTime t"])
  show "grows now s s \<and> scheduledTime s \<le> scheduledTime s"
    by (simp add: grows_def)
next
  fix t a rest
  assume P: "grows now s t \<and> scheduledTime s \<le> scheduledTime t"
  then obtain subs where subs: "started t = started s @ subs" "\<forall>x \<in> set subs. now \<le> startTime x"
    by (auto simp: grows_def)
  let ?t = "submit now a (t\<lparr>audioQueue := rest\<rparr>)"
  have "started ?t = started s @ (subs @ [\<lparr>src = nodeCount t, data = a,
          startTime = max (scheduledTime t) now, gain = gainNode t,
          taps = workletNodes (registeredWorklets t)\<rparr>])"
    by (simp add: started_submit subs)
  moreover have "\<forall>x \<in> set (subs @ [\<lparr>src = nodeCount t, data = a,
          startTime = max (scheduledTime t) now, gain = gainNode t,
          taps = workletNodes (registeredWorklets t)\<rparr>]). now \<le> startTime x"
    using subs(2) by simp
  ultimately have "grows now s ?t"
    unfolding grows_def by blast
  moreover have "scheduledTime s \<le> scheduledTime ?t"
    using P duration_nonneg [of a] by (simp add: scheduledTime_submit max_def)
  ultimately show "grows now s ?t \<and> scheduledTime s \<le> scheduledTime ?t" ..
qed

lemma scheduleNextBuffer_grows:
  "grows now s (scheduleNextBuffer now s)"
  "scheduledTime s \<le> scheduledTime (scheduleNextBuffer now s)"
  using drainLoop_grows [of now s]
  by (simp_all add: grows_def scheduleNextBuffer_fields)

lemma grows_trans_eq: "started s' = started s \<Longrightarrow> grows now s' t \<Longrightarrow> grows now s t"
  by (simp add: grows_def)

lemma step_grows: "grows now s (step now e s)"
proof (cases e)
  case (AddPCM16 chunk)
  obtain f l where d: "decode chunk = (f, l)" by (cases "decode chunk")
  let ?s = "sliceLoop (s\<lparr>console := console s @ l, processingBuffer := processingBuffer s @ f\<rparr>)"
  let ?t = "?s\<lparr>isPlaying := True, scheduledTime := now + initialBufferTime\<rparr>"
  have 1: "started ?s = started s" by (simp add: sliceLoop_keeps)
  have "grows now s (scheduleNextBuffer now ?t)"
    by (rule grows_trans_eq [OF _ scheduleNextBuffer_grows(1)]) (simp add: 1)
  with 1 AddPCM16 show ?thesis
    by (simp add: addPCM16_def d Let_def grows_refl)
next
  case Complete
  let ?t = "s\<lparr>isStreamComplete := True, audioQueue := audioQueue s @ [processingBuffer s],
              processingBuffer := []\<rparr>"
  have "grows now s (scheduleNextBuffer now ?t)"
    by (rule grows_trans_eq [OF _ scheduleNextBuffer_grows(1)]) simp
  with Complete show ?thesis
    by (simp add: complete_def Let_def onComplete_def grows_refl)
next
  case Stop
  then show ?thesis by (simp add: grows_refl stop_fields)
next
  case (Resume outcome)
  then show ?thesis
    by (simp add: grows_refl resume_def Let_def split: AudioContextState.split option.split)
next
  case (AddWorklet name h outcome)
  then show ?thesis
    by (simp add: grows_refl addWorklet_def Let_def split: option.split)
next
  case (Fire ident)
  have 1: "grows now s (scheduleNextBuffer now (clearInterval ident s))"
    by (rule grows_trans_eq [OF _ scheduleNextBuffer_grows(1)]) (simp add: clearInterval_def)
  have 2: "grows now s (pollCheck now (clearInterval ident s))"
    using 1 by (simp add: pollCheck_def grows_refl clearInterval_def)
  have 3: "grows now s (pollCheck now s)"
    by (simp add: pollCheck_def grows_refl scheduleNextBuffer_grows)
  have 4: "grows now s (rebuildGain t)" if "started t = started s" for t
    using that by (simp add: grows_refl rebuildGain_def)
  from 1 2 3 4 Fire show ?thesis
    by (simp add: fireTimer_def runCallback_def grows_refl scheduleNextBuffer_grows clearInterval_def
        split: option.split timer.split callback.split)
next
  case (Ended x)
  then show ?thesis
    by (simp add: grows_refl sourceEnded_def endedHandler_def onComplete_def Let_def)
qed

lemma step_cursor:
  assumes "\<not> restarts s e"
  shows "scheduledTime s \<le> scheduledTime (step now e s)"
proof (cases e)
  case (AddPCM16 chunk)
  obtain f l where d: "decode chunk = (f, l)" by (cases "decode chunk")
  from assms AddPCM16 have "isPlaying s" by (simp add: restarts_def)
  with AddPCM16 show ?thesis
    by (simp add: addPCM16_def d Let_def sliceLoop_keeps)
next
  case Complete
  let ?t = "s\<lparr>isStreamComplete := True, audioQueue := audioQueue s @ [processingBuffer s],
              processingBuffer := []\<rparr>"
  have "scheduledTime s \<le> scheduledTime (scheduleNextBuffer now ?t)"
    using scheduleNextBuffer_grows(2) [of ?t now] by simp
  with Complete show ?thesis
    by (simp add: complete_def Let_def onComplete_def)
next
  case Stop
  with assms show ?thesis by (simp add: restarts_def)
next
  case (Resume outcome)
  with assms show ?thesis by (simp add: restarts_def)
next
  case (AddWorklet name h outcome)
  then show ?thesis
    by (simp add: addWorklet_def Let_def split: option.split)
next
  case (Fire ident)
  have 1: "scheduledTime s \<le> scheduledTime (scheduleNextBuffer now (clearInterval ident s))"
    using scheduleNextBuffer_grows(2) [of "clearInterval ident s" now]
    by (simp add: clearInterval_def)
  have 2: "scheduledTime s \<le> scheduledTime (pollCheck now (clearInterval ident s))"
    using 1 by (simp add: pollCheck_def clearInterval_def)
  have 3: "scheduledTime s \<le> scheduledTime (pollCheck now s)"
    by (simp add: pollCheck_def scheduleNextBuffer_grows)
  from 1 2 3 Fire show ?thesis
    by (simp add: fireTimer_def runCallback_def scheduleNextBuffer_grows clearInterval_def
        rebuildGain_def split: option.split timer.split callback.split)
next
  case (Ended x)
  then show ?thesis
    by (simp add: sourceEnded_def endedHandler_def onComplete_def Let_def)
qed

subsection \<open>One frame from a new streamer\<close>

lemma isPlaying_scheduleNextBuffer:
  "\<not> isStreamComplete s \<Longrightarrow> isPlaying (scheduleNextBuffer now s) = isPlaying s"
  by (simp add: scheduleNextBuffer_def Let_def setTimer_def drainLoop_keeps
      split: option.split prod.split)

lemma drainLoop_one:
  assumes "audioQueue t = [a]" and "scheduledTime t < now + SCHEDULE_AHEAD_TIME"
  shows "drainLoop now t = submit now a (t\<lparr>audioQueue := []\<rparr>)"
proof -
  have "drainLoop now t = drainLoop now (submit now a (t\<lparr>audioQueue := []\<rparr>))"
    using assms by (simp add: drainLoop.simps [of now t])
  also have "\<dots> = submit now a (t\<lparr>audioQueue := []\<rparr>)"
    by (rule drainLoop_empty) (simp add: submit_keeps)
  finally show ?thesis .
qed

lemma sliceLoop_one:
  assumes "bufferSize \<le> length (processingBuffer s)"
    and "length (processingBuffer s) < 2 * bufferSize"
  shows "sliceLoop s =
           s\<lparr>audioQueue := audioQueue s @ [take bufferSize (processingBuffer s)],
             processingBuffer := drop bufferSize (processingBuffer s)\<rparr>"
proof -
  let ?s = "s\<lparr>audioQueue := audioQueue s @ [take bufferSize (processingBuffer s)],
              processingBuffer := drop bufferSize (processingBuffer s)\<rparr>"
  have "sliceLoop s = sliceLoop ?s"
    using assms(1) by (simp add: sliceLoop.simps [of s])
  also have "\<dots> = ?s"
    using assms by (simp add: sliceLoop.simps [of ?s])
  finally show ?thesis .
qed

lemma addPCM16_one_frame:
  assumes len: "length_u8 chunk div 2 = bufferSize + k" and k: "k < bufferSize"
  shows "started (addPCM16 now chunk (construct st reg)) =
           [\<lparr>src = 2, data = take bufferSize (fst (decode chunk)), startTime = now + 1 / 10,
             gain = 0, taps = workletNodes reg\<rparr>]"
    and "audioQueue (addPCM16 now chunk (construct st reg)) = []"
    and "processingBuffer (addPCM16 now chunk (construct st reg)) = drop bufferSize (fst (decode chunk))"
    and "scheduledTime (addPCM16 now chunk (construct st reg)) = now + 1 / 10 + 8 / 25"
    and "isPlaying (addPCM16 now chunk (construct st reg))"
    and "endOfQueueAudioSource (addPCM16 now chunk (construct st reg)) = Some 2"
proof -
  obtain f l where d: "decode chunk = (f, l)" by (cases "decode chunk")
  have lf: "length f = bufferSize + k"
    using length_decode [of chunk] len by (simp add: d)
  let ?c = "construct st reg"
  let ?s1 = "?c\<lparr>console := console ?c @ l, processingBuffer := processingBuffer ?c @ f\<rparr>"
  let ?s2 = "?s1\<lparr>audioQueue := audioQueue ?s1 @ [take bufferSize (processingBuffer ?s1)],
               processingBuffer := drop bufferSize (processingBuffer ?s1)\<rparr>"
  let ?t = "?s2\<lparr>isPlaying := True, scheduledTime := now + initialBufferTime\<rparr>"
  let ?u = "submit now (take bufferSize f) (?t\<lparr>audioQueue := []\<rparr>)"
  have sl: "sliceLoop ?s1 = ?s2"
    by (rule sliceLoop_one) (simp_all add: construct_def lf k)
  have np: "\<not> isPlaying ?s2" by (simp add: construct_def)
  have nc: "\<not> isStreamComplete ?t" by (simp add: construct_def)
  have add: "addPCM16 now chunk ?c = scheduleNextBuffer now ?t"
    using np by (simp add: addPCM16_def d Let_def sl)
  have dr: "drainLoop now ?t = ?u"
    by (rule drainLoop_one)
       (simp_all add: construct_def initialBufferTime_def SCHEDULE_AHEAD_TIME_def)
  have dur: "duration (take bufferSize f) = 8 / 25"
    by (simp add: duration_def lf sampleRate_def bufferSize_def)
  have f1: "started (addPCM16 now chunk ?c) = started ?u"
    and f2: "audioQueue (addPCM16 now chunk ?c) = audioQueue ?u"
    and f3: "scheduledTime (addPCM16 now chunk ?c) = scheduledTime ?u"
    and f4: "endOfQueueAudioSource (addPCM16 now chunk ?c) = endOfQueueAudioSource ?u"
    by (simp_all only: add scheduleNextBuffer_fields dr)
  have f5: "processingBuffer (addPCM16 now chunk ?c) = processingBuffer ?t"
    by (simp only: add scheduleNextBuffer_keeps)
  have f6: "isPlaying (addPCM16 now chunk ?c) = isPlaying ?t"
    by (simp only: add isPlaying_scheduleNextBuffer [OF nc])
  show "started (addPCM16 now chunk ?c) =
           [\<lparr>src = 2, data = take bufferSize (fst (decode chunk)), startTime = now + 1 / 10,
             gain = 0, taps = workletNodes reg\<rparr>]"
    unfolding f1 by (simp add: started_submit d construct_def initialBufferTime_def)
  show "audioQueue (addPCM16 now chunk ?c) = []"
    unfolding f2 by (simp add: submit_keeps)
  show "processingBuffer (addPCM16 now chunk ?c) = drop bufferSize (fst (decode chunk))"
    unfolding f5 by (simp add: d construct_def)
  show "scheduledTime (addPCM16 now chunk ?c) = now + 1 / 10 + 8 / 25"
    unfolding f3 by (simp add: scheduledTime_submit dur initialBufferTime_def)
  show "isPlaying (addPCM16 now chunk ?c)"
    unfolding f6 by simp
  show "endOfQueueAudioSource (addPCM16 now chunk ?c) = Some 2"
    unfolding f4 by (simp add: submit_def Let_def construct_def)
qed

lemma drainLoop_grows_from:
  assumes "c \<le> scheduledTime s"
  shows "grows c s (drainLoop now s) \<and> c \<le> scheduledTime (drainLoop now s)"
proof (rule drainLoop_rule [where P = "\<lambda>t. grows c s t \<and> c \<le> scheduledTime t"])
  show "grows c s s \<and> c \<le> scheduledTime s"
    using assms by (simp add: grows_def)
next
  fix t a rest
  assume P: "grows c s t \<and> c \<le> scheduledTime t"
  then obtain subs where subs: "started t = started s @ subs" "\<forall>x \<in> set subs. c \<le> startTime x"
    by (auto simp: grows_def)
  let ?t = "submit now a (t\<lparr>audioQueue := rest\<rparr>)"
  let ?x = "\<lparr>src = nodeCount t, data = a, startTime = max (scheduledTime t) now,
             gain = gainNode t, taps = workletNodes (registeredWorklets t)\<rparr>"
  have "started ?t = started s @ (subs @ [?x])"
    by (simp add: started_submit subs)
  moreover have "\<forall>x \<in> set (subs @ [?x]). c \<le> startTime x"
    using subs(2) P by (simp add: max_def)
  ultimately have "grows c s ?t"
    unfolding grows_def by blast
  moreover have "c \<le> scheduledTime ?t"
    using P duration_nonneg [of a] by (simp add: scheduledTime_submit max_def)
  ultimately show "grows c s ?t \<and> c \<le> scheduledTime ?t" ..
qed

lemma addPCM16_activates:
  assumes "\<not> isPlaying s"
  shows "\<exists>t. isPlaying t \<and> scheduledTime t = now + 1 / 10 \<and>
             addPCM16 now chunk s = scheduleNextBuffer now t"
    and "grows (now + 1 / 10) s (addPCM16 now chunk s)"
proof -
  obtain f l where d: "decode chunk = (f, l)" by (cases "decode chunk")
  let ?s = "sliceLoop (s\<lparr>console := console s @ l, processingBuffer := processingBuffer s @ f\<rparr>)"
  let ?t = "?s\<lparr>isPlaying := True, scheduledTime := now + initialBufferTime\<rparr>"
  have add: "addPCM16 now chunk s = scheduleNextBuffer now ?t"
    using assms by (simp add: addPCM16_def d Let_def sliceLoop_keeps)
  moreover have "isPlaying ?t" "scheduledTime ?t = now + 1 / 10"
    by (simp_all add: initialBufferTime_def)
  ultimately show "\<exists>t. isPlaying t \<and> scheduledTime t = now + 1 / 10 \<and>
             addPCM16 now chunk s = scheduleNextBuffer now t"
    by (intro exI [of _ ?t]) simp
  have "grows (now + 1 / 10) ?t (drainLoop now ?t)"
    using drainLoop_grows_from [of "now + 1 / 10" ?t now] by (simp add: initialBufferTime_def)
  then have "grows (now + 1 / 10) s (drainLoop now ?t)"
    by (rule grows_trans_eq [rotated]) (simp add: sliceLoop_keeps)
  then show "grows (now + 1 / 10) s (addPCM16 now chunk s)"
    by (simp add: add grows_def scheduleNextBuffer_fields)
qed

subsection \<open>Queued frames are not empty\<close>

lemma nonempty_sliceLoop:
  assumes "[] \<notin> set (audioQueue s)"
  shows "[] \<notin> set (audioQueue (sliceLoop s))"
proof -
  obtain q b where "sliceLoop s = s\<lparr>audioQueue := audioQueue s @ q, processingBuffer := b\<rparr>"
    and "\<forall>f \<in> set q. length f = bufferSize"
    using sliceLoop_shape [of s] by blast
  with assms show ?thesis
    by (auto simp: bufferSize_def)
qed

lemma nonempty_drainLoop:
  assumes "[] \<notin> set (audioQueue s)"
  shows "[] \<notin> set (audioQueue (drainLoop now s))"
  by (rule drainLoop_rule [where P = "\<lambda>t. [] \<notin> set (audioQueue t)"])
     (use assms in \<open>auto simp: submit_keeps\<close>)

lemma nonempty_scheduleNextBuffer:
  "[] \<notin> set (audioQueue s) \<Longrightarrow> [] \<notin> set (audioQueue (scheduleNextBuffer now s))"
  by (simp add: scheduleNextBuffer_fields nonempty_drainLoop)

lemma nonempty_step:
  assumes "[] \<notin> set (audioQueue s)"
  shows "[] \<notin> set (audioQueue (step now e s))"
proof (cases e)
  case (AddPCM16 chunk)
  obtain f l where d: "decode chunk = (f, l)" by (cases "decode chunk")
  let ?s = "sliceLoop (s\<lparr>console := console s @ l, processingBuffer := processingBuffer s @ f\<rparr>)"
  have 1: "[] \<notin> set (audioQueue ?s)"
    by (rule nonempty_sliceLoop) (use assms in simp)
  then have "[] \<notin> set (audioQueue
      (scheduleNextBuffer now (?s\<lparr>isPlaying := True, scheduledTime := now + initialBufferTime\<rparr>)))"
    by (intro nonempty_scheduleNextBuffer) simp
  with 1 AddPCM16 show ?thesis
    by (simp add: addPCM16_def d Let_def)
next
  case Complete
  let ?t = "s\<lparr>isStreamComplete := True, audioQueue := audioQueue s @ [processingBuffer s],
              processingBuffer := []\<rparr>"
  have "[] \<notin> set (audioQueue (scheduleNextBuffer now ?t))" if "processingBuffer s \<noteq> []"
    by (rule nonempty_scheduleNextBuffer) (use assms that in auto)
  with Complete assms show ?thesis
    by (auto simp add: complete_def Let_def onComplete_def)
next
  case Stop
  then show ?thesis by (simp add: stop_fields)
next
  case (Resume outcome)
  with assms show ?thesis
    by (simp add: resume_def Let_def split: AudioContextState.split option.split)
next
  case (AddWorklet name h outcome)
  with assms show ?thesis
    by (simp add: addWorklet_def Let_def split: option.split)
next
  case (Fire ident)
  have 1: "[] \<notin> set (audioQueue (clearInterval ident s))"
    using assms by (simp add: clearInterval_def)
  have 2: "[] \<notin> set (audioQueue (pollCheck now t))" if "[] \<notin> set (audioQueue t)" for t
    using that by (simp add: pollCheck_def nonempty_scheduleNextBuffer)
  have 3: "[] \<notin> set (audioQueue (rebuildGain t))" if "[] \<notin> set (audioQueue t)" for t
    using that by (simp add: rebuildGain_def)
  from assms 1 2 3 Fire show ?thesis
    by (simp add: fireTimer_def runCallback_def nonempty_scheduleNextBuffer
        split: option.split timer.split callback.split)
next
  case (Ended x)
  with assms show ?thesis
    by (simp add: sourceEnded_def endedHandler_def onComplete_def Let_def)
qed

lemma queued_frames_nonempty: "[] \<notin> set (audioQueue (run evs (construct st reg)))"
proof -
  have "[] \<notin> set (audioQueue (run evs s))" if "[] \<notin> set (audioQueue s)" for s
    using that
  proof (induction evs arbitrary: s)
    case Nil
    then show ?case by simp
  next
    case (Cons p evs)
    obtain now e where p: "p = (now, e)" by (cases p)
    from Cons.IH [OF nonempty_step [OF Cons.prems, of now e]] show ?case
      by (simp add: p)
  qed
  then show ?thesis by (simp add: construct_def)
qed

subsection \<open>When onComplete is called\<close>

lemma step_preserves:
  assumes cong: "\<And>t t'. \<lbrakk>P t; endOfQueueAudioSource t' = endOfQueueAudioSource t;
                    onended t' = onended t; finished t' = finished t; started t' = started t;
                    nodeCount t \<le> nodeCount t'\<rbrakk> \<Longrightarrow> P t'"
    and sub: "\<And>t a rest. P t \<Longrightarrow> P (submit now a (t\<lparr>audioQueue := rest\<rparr>))"
    and ended: "\<And>y. e = Ended y \<Longrightarrow> P (sourceEnded y s)"
    and s: "P s"
  shows "P (step now e s)"
proof -
  have drain: "P (drainLoop now t)" if "P t" for t
    by (rule drainLoop_rule [where P = P]) (simp_all add: that sub)
  have sched: "P (scheduleNextBuffer now t)" if "P t" for t
    by (rule cong [OF drain [OF that]]) (simp_all add: scheduleNextBuffer_fields)
  show ?thesis
  proof (cases e)
    case (AddPCM16 chunk)
    obtain f l where d: "decode chunk = (f, l)" by (cases "decode chunk")
    let ?s = "sliceLoop (s\<lparr>console := console s @ l, processingBuffer := processingBuffer s @ f\<rparr>)"
    have 1: "P ?s"
      by (rule cong [OF s]) (simp_all add: sliceLoop_keeps)
    have 2: "P (?s\<lparr>isPlaying := True, scheduledTime := now + initialBufferTime\<rparr>)"
      by (rule cong [OF 1]) simp_all
    from 1 sched [OF 2] AddPCM16 show ?thesis
      by (simp add: addPCM16_def d Let_def)
  next
    case Complete
    have 1: "P (s\<lparr>isStreamComplete := True, audioQueue := audioQueue s @ [processingBuffer s],
                   processingBuffer := []\<rparr>)"
      by (rule cong [OF s]) simp_all
    have 2: "P (onComplete (s\<lparr>isStreamComplete := True\<rparr>))"
      by (rule cong [OF s]) (simp_all add: onComplete_def)
    from 1 sched [OF 1] 2 Complete show ?thesis
      by (simp add: complete_def Let_def)
  next
    case Stop
    have "P (stop now s)"
      by (rule cong [OF s])
         (simp_all add: stop_def setTimer_def clearInterval_def Let_def split: option.split)
    with Stop show ?thesis by simp
  next
    case (Resume outcome)
    have "P (snd (resume now outcome s))"
      by (rule cong [OF s])
         (simp_all add: resume_def Let_def split: AudioContextState.split option.split)
    with Resume show ?thesis by simp
  next
    case (AddWorklet name h outcome)
    have "P (snd (addWorklet name h outcome s))"
      by (rule cong [OF s]) (simp_all add: addWorklet_def Let_def split: option.split)
    with AddWorklet show ?thesis by simp
  next
    case (Fire ident)
    have 1: "P (clearInterval ident s)"
      by (rule cong [OF s]) (simp_all add: clearInterval_def)
    have 2: "P (rebuildGain t)" if "P t" for t
      by (rule cong [OF that]) (simp_all add: rebuildGain_def)
    have 3: "P (pollCheck now t)" if "P t" for t
      using that by (simp add: pollCheck_def sched)
    from s 1 2 3 sched Fire show ?thesis
      by (simp add: fireTimer_def runCallback_def
          split: option.split timer.split callback.split)
  next
    case (Ended y)
    with ended show ?thesis by simp
  qed
qed



lemma pending_step:
  assumes "pending x s" and "e \<noteq> Ended x"
  shows "pending x (step now e s)"
proof (rule step_preserves [where P = "pending x"])
  fix t t' :: world
  assume "pending x t" "endOfQueueAudioSource t' = endOfQueueAudioSource t"
    "onended t' = onended t" "finished t' = finished t" "started t' = started t"
    "nodeCount t \<le> nodeCount t'"
  then show "pending x t'" by (simp add: pending_def)
next
  fix t a rest
  assume "pending x t"
  then show "pending x (submit now a (t\<lparr>audioQueue := rest\<rparr>))"
    by (auto simp add: pending_def submit_def Let_def)
next
  fix y
  assume "e = Ended y"
  with assms show "pending x (sourceEnded y s)"
    by (auto simp add: pending_def sourceEnded_def endedHandler_def onComplete_def Let_def)
next
  show "pending x s" by (rule assms(1))
qed

lemma pending_run:
  "pending x s \<Longrightarrow> Ended x \<notin> snd ` set evs \<Longrightarrow> pending x (run evs s)"
proof (induction evs arbitrary: s)
  case Nil
  then show ?case by simp
next
  case (Cons p evs)
  obtain now e where p: "p = (now, e)" by (cases p)
  with Cons.prems(2) have e: "e \<noteq> Ended x" and rest: "Ended x \<notin> snd ` set evs" by auto
  from Cons.IH [OF pending_step [OF Cons.prems(1) e, of now] rest] show ?case
    by (simp add: p)
qed



subsection \<open>One and two frames, and the marker\<close>


lemma sliceLoop_two:
  assumes "length (processingBuffer s) = 2 * bufferSize"
  shows "sliceLoop s =
           s\<lparr>audioQueue := audioQueue s @ [take bufferSize (processingBuffer s),
                                             drop bufferSize (processingBuffer s)],
             processingBuffer := []\<rparr>"
proof -
  let ?s = "s\<lparr>audioQueue := audioQueue s @ [take bufferSize (processingBuffer s)],
              processingBuffer := drop bufferSize (processingBuffer s)\<rparr>"
  have "sliceLoop s = sliceLoop ?s"
    using assms by (simp add: sliceLoop.simps [of s])
  also have "\<dots> = ?s\<lparr>audioQueue := audioQueue ?s @ [take bufferSize (processingBuffer ?s)],
                       processingBuffer := drop bufferSize (processingBuffer ?s)\<rparr>"
    by (rule sliceLoop_one) (simp_all add: assms bufferSize_def)
  finally show ?thesis
    using assms by simp
qed

lemma drainLoop_first_of_two:
  assumes "audioQueue t = [a, b]" and "scheduledTime t = now + 1 / 10"
    and "length a = bufferSize"
  shows "drainLoop now t = submit now a (t\<lparr>audioQueue := [b]\<rparr>)"
proof -
  let ?u = "submit now a (t\<lparr>audioQueue := [b]\<rparr>)"
  have "drainLoop now t = drainLoop now ?u"
    using assms by (simp add: drainLoop.simps [of now t] SCHEDULE_AHEAD_TIME_def)
  also have "\<dots> = ?u"
    using assms
    by (simp add: drainLoop.simps [of now ?u] submit_keeps scheduledTime_submit duration_def
        sampleRate_def bufferSize_def SCHEDULE_AHEAD_TIME_def)
  finally show ?thesis .
qed

lemma addPCM16_two_frames:
  assumes np: "\<not> isPlaying s" and q: "audioQueue s = []" and b: "processingBuffer s = []"
    and len: "length_u8 chunk div 2 = 2 * bufferSize"
  shows "audioQueue (addPCM16 now chunk s) = [drop bufferSize (fst (decode chunk))]"
    and "endOfQueueAudioSource (addPCM16 now chunk s) = endOfQueueAudioSource s"
    and "onended (addPCM16 now chunk s) = onended s"
    and "finished (addPCM16 now chunk s) = finished s"
    and "completed (addPCM16 now chunk s) = completed s"
    and "set (started s) \<subseteq> set (started (addPCM16 now chunk s))"
proof -
  obtain f l where d: "decode chunk = (f, l)" by (cases "decode chunk")
  have lf: "length f = 2 * bufferSize"
    using length_decode [of chunk] len by (simp add: d)
  let ?s1 = "s\<lparr>console := console s @ l, processingBuffer := processingBuffer s @ f\<rparr>"
  let ?s2 = "?s1\<lparr>audioQueue := audioQueue ?s1 @ [take bufferSize (processingBuffer ?s1),
                                                 drop bufferSize (processingBuffer ?s1)],
               processingBuffer := []\<rparr>"
  let ?t = "?s2\<lparr>isPlaying := True, scheduledTime := now + initialBufferTime\<rparr>"
  let ?u = "submit now (take bufferSize f) (?t\<lparr>audioQueue := [drop bufferSize f]\<rparr>)"
  have sl: "sliceLoop ?s1 = ?s2"
    by (rule sliceLoop_two) (simp add: b lf)
  have add: "addPCM16 now chunk s = scheduleNextBuffer now ?t"
    using np by (simp add: addPCM16_def d Let_def sl)
  have dr: "drainLoop now ?t = ?u"
    by (rule drainLoop_first_of_two)
       (simp_all add: q b initialBufferTime_def lf bufferSize_def)
  have f1: "audioQueue (addPCM16 now chunk s) = audioQueue ?u"
    and f2: "endOfQueueAudioSource (addPCM16 now chunk s) = endOfQueueAudioSource ?u"
    and f3: "onended (addPCM16 now chunk s) = onended ?u"
    and f6: "started (addPCM16 now chunk s) = started ?u"
    by (simp_all only: add scheduleNextBuffer_fields dr)
  have f4: "finished (addPCM16 now chunk s) = finished ?t"
    and f5: "completed (addPCM16 now chunk s) = completed ?t"
    by (simp_all only: add scheduleNextBuffer_keeps)
  show "audioQueue (addPCM16 now chunk s) = [drop bufferSize (fst (decode chunk))]"
    unfolding f1 by (simp add: submit_keeps d)
  show "endOfQueueAudioSource (addPCM16 now chunk s) = endOfQueueAudioSource s"
    unfolding f2 by (simp add: submit_def Let_def)
  show "onended (addPCM16 now chunk s) = onended s"
    unfolding f3 by (simp add: submit_def Let_def)
  show "finished (addPCM16 now chunk s) = finished s"
    unfolding f4 by simp
  show "completed (addPCM16 now chunk s) = completed s"
    unfolding f5 by simp
  show "set (started s) \<subseteq> set (started (addPCM16 now chunk s))"
    unfolding f6 by (auto simp add: started_submit)
qed


section \<open>The claims\<close>

subsection \<open>C1: sample conservation\<close>

text \<open>
  C1. Take any sequence of events in which \<open>stop\<close> does not occur: calls of \<open>addPCM16\<close>,
  \<open>complete\<close>, \<open>resume\<close> and \<open>addWorklet\<close>, timers that fire, sources that end, in any
  order, on a freshly constructed streamer. Then the frames made so far, in order,
  followed by the remainder buffer, are exactly the decoded samples of the chunks in the
  order they were fed: nothing is lost, repeated or moved. In particular the lengths of
  the frames and the length of the remainder buffer add up to the number of decoded
  samples, \<open>chunk.length div 2\<close> for each chunk.
\<close>

theorem sample_conservation:
  assumes "Stop \<notin> snd ` set evs"
  shows "concat (frames (run evs (construct st reg))) @ processingBuffer (run evs (construct st reg))
           = fed evs \<and>
         (\<Sum>f \<leftarrow> frames (run evs (construct st reg)). length f)
           + length (processingBuffer (run evs (construct st reg)))
           = (\<Sum>(now, e) \<leftarrow> evs. case e of AddPCM16 chunk \<Rightarrow> length_u8 chunk div 2 | _ \<Rightarrow> 0)"
proof -
  let ?s = "run evs (construct st reg)"
  have eq: "concat (frames ?s) @ processingBuffer ?s = fed evs"
    using samples_run [OF assms, of "construct st reg"]
    by (simp add: samples_construct) (simp add: samples_def)
  have "(\<Sum>f \<leftarrow> frames ?s. length f) + length (processingBuffer ?s) = length (fed evs)"
    using arg_cong [OF eq, of length] by (simp add: length_concat)
  moreover have "length (fed evs) =
      (\<Sum>(now, e) \<leftarrow> evs. case e of AddPCM16 chunk \<Rightarrow> length_u8 chunk div 2 | _ \<Rightarrow> 0)"
    by (induction evs) (auto simp: fed_def length_fedOf)
  ultimately show ?thesis
    using eq by simp
qed

theorem sample_conservation_witness:
  "Stop \<notin> snd ` set [(0, AddPCM16 \<lparr>buffer = [1, 0, 2, 0], byteOffset = 0, length_u8 = 4\<rparr>), (1, Complete)] \<and>
   concat (frames (run [(0, AddPCM16 \<lparr>buffer = [1, 0, 2, 0], byteOffset = 0, length_u8 = 4\<rparr>), (1, Complete)]
                     (construct Running []))) @
   processingBuffer (run [(0, AddPCM16 \<lparr>buffer = [1, 0, 2, 0], byteOffset = 0, length_u8 = 4\<rparr>), (1, Complete)]
                     (construct Running []))
     = [1 / 32768, 2 / 32768]"
proof -
  have r: "replicate 2 (0::rat) = [0, 0]"
    by (simp add: numeral_2_eq_2)
  show ?thesis
    using sample_conservation
            [of "[(0, AddPCM16 \<lparr>buffer = [1, 0, 2, 0], byteOffset = 0, length_u8 = 4\<rparr>), (1, Complete)]"
                Running "[]"]
    by (simp add: fed_def fedOf_def decode_def decodeLoop.simps getInt16_def int16le_def
        setIndex_def r)
qed

subsection \<open>C2: decoding\<close>

text \<open>
  What the decoder does, for every chunk: it makes \<open>chunk.length div 2\<close> samples, and
  sample \<open>j\<close> is the 16-bit integer at bytes \<open>2j\<close> and \<open>2j+1\<close> of \<open>chunk.buffer\<close> over
  \<open>32768\<close> (lemmas \<open>length_decode\<close> and \<open>decode_eq\<close>). For a chunk that starts at byte 0 of
  its buffer these are the chunk's own bytes, and a chunk of 3 bytes gives one sample
  and no exception.
\<close>

lemma decode_offset_0:
  assumes "valid_view chunk" and "byteOffset chunk = 0"
  shows "fst (decode chunk) =
           map (\<lambda>j. of_int (int16le (bytes chunk ! (2 * j)) (bytes chunk ! (2 * j + 1))) / 32768)
             [0..<length_u8 chunk div 2]"
proof -
  have "(case getInt16 (buffer chunk) (2 * j) of Inr v \<Rightarrow> of_int v / 32768 | Inl e \<Rightarrow> (0::rat)) =
        of_int (int16le (bytes chunk ! (2 * j)) (bytes chunk ! (2 * j + 1))) / 32768"
    if "j < length_u8 chunk div 2" for j
  proof -
    from that have "2 * j + 1 < length_u8 chunk" by arith
    with assms show ?thesis
      by (simp add: getInt16_def bytes_def valid_view_def)
  qed
  then show ?thesis
    by (simp add: decode_eq)
qed

lemma snd_decodeLoop_in_range:
  "length_u8 chunk \<le> length (buffer chunk) \<Longrightarrow> even (length_u8 chunk) \<Longrightarrow>
   snd (decodeLoop chunk i a l) = l"
proof (induction chunk i a l rule: decodeLoop.induct)
  case (1 chunk i a l)
  show ?case
  proof (cases "2 * i < length_u8 chunk")
    case False
    then show ?thesis by (simp add: decodeLoop.simps [of chunk i])
  next
    case True
    with 1(4) have "2 * i + 2 \<le> length_u8 chunk" by presburger
    with 1(3) obtain v where v: "getInt16 (buffer chunk) (i * 2) = Inr v"
      by (simp add: getInt16_def mult.commute)
    with True 1(2) [OF True v 1(3) 1(4)] show ?thesis
      by (simp add: decodeLoop.simps [of chunk i])
  qed
qed

lemma decode_no_fault:
  "valid_view chunk \<Longrightarrow> even (length_u8 chunk) \<Longrightarrow> snd (decode chunk) = []"
  by (simp add: decode_def snd_decodeLoop_in_range valid_view_def)

lemma addPCM16_three_bytes:
  assumes "length_u8 chunk = 3"
  shows "length (fst (decode chunk)) = 1"
    and "length (processingBuffer (addPCM16 now chunk (construct st reg))) = 1"
    and "audioQueue (addPCM16 now chunk (construct st reg)) = []"
proof -
  show len: "length (fst (decode chunk)) = 1"
    using assms by (simp add: length_decode)
  obtain f l where d: "decode chunk = (f, l)" by (cases "decode chunk")
  with len obtain x where f: "f = [x]" by (cases f) auto
  show "length (processingBuffer (addPCM16 now chunk (construct st reg))) = 1"
    by (simp add: addPCM16_def d f construct_def sliceLoop.simps bufferSize_def
        scheduleNextBuffer_def drainLoop.simps setTimer_def Let_def)
  show "audioQueue (addPCM16 now chunk (construct st reg)) = []"
    by (simp add: addPCM16_def d f construct_def sliceLoop.simps bufferSize_def
        scheduleNextBuffer_def drainLoop.simps setTimer_def Let_def)
qed

text \<open>
  C2. The claim is that for every chunk the sample at pair index \<open>i\<close> is the
  little-endian 16-bit integer at bytes \<open>2i\<close> and \<open>2i+1\<close> of the chunk, over \<open>32768\<close>.
  The \<open>DataView\<close> of line 79 is built on \<open>chunk.buffer\<close> without \<open>chunk.byteOffset\<close>, so
  a chunk that is a window further into its buffer is decoded from the wrong bytes:
  the chunk of the two bytes \<open>02 00\<close> at offset 2 of the buffer \<open>01 00 02 00\<close> holds the
  sample \<open>2/32768\<close>, and \<open>addPCM16\<close> puts \<open>1/32768\<close> into the remainder buffer.
\<close>

theorem addPCM16_ignores_byteOffset:
  "valid_view \<lparr>buffer = [1, 0, 2, 0], byteOffset = 2, length_u8 = 2\<rparr> \<and>
   bytes \<lparr>buffer = [1, 0, 2, 0], byteOffset = 2, length_u8 = 2\<rparr> = [2, 0] \<and>
   of_int (int16le 2 0) / 32768 = (2 / 32768 :: rat) \<and>
   processingBuffer
     (addPCM16 0 \<lparr>buffer = [1, 0, 2, 0], byteOffset = 2, length_u8 = 2\<rparr> (construct Running []))
     = [1 / 32768]"
  by (simp add: valid_view_def bytes_def model_defs)

subsection \<open>C3: frame slicing and the start of the scheduler\<close>

text \<open>
  The claim is that \<open>addPCM16\<close> with \<open>2 * 7680\<close> bytes on an idle streamer yields one
  queued frame, and that the cursor is set to the clock plus \<open>0.1\<close>. A call made while
  not playing ends with \<open>scheduleNextBuffer\<close> (line 110), which finds the cursor inside
  the window of \<open>0.2\<close> s and starts the frame at once: when \<open>addPCM16\<close> returns the queue
  is empty and the cursor is at the end of the frame, \<open>0.1 + 7680/24000\<close>.
\<close>

theorem first_frame_leaves_queue:
  "audioQueue
     (addPCM16 0 \<lparr>buffer = replicate 15360 0, byteOffset = 0, length_u8 = 15360\<rparr>
        (construct Running [])) = [] \<and>
   scheduledTime
     (addPCM16 0 \<lparr>buffer = replicate 15360 0, byteOffset = 0, length_u8 = 15360\<rparr>
        (construct Running [])) = 21 / 50"
  using addPCM16_one_frame(2,4)
          [of "\<lparr>buffer = replicate 15360 0, byteOffset = 0, length_u8 = 15360\<rparr>" 0 0 Running "[]"]
  by (simp add: bufferSize_def)

text \<open>
  C3, as the code has it. On a new streamer, one \<open>addPCM16\<close> call with a chunk of
  \<open>7680 + k\<close> samples, \<open>k < 7680\<close>, makes exactly one frame, the first \<open>7680\<close> decoded samples, and
  starts it in the same call at the clock plus \<open>0.1\<close>; on return the queue is empty, the
  remainder buffer holds the other \<open>k\<close> samples (none for \<open>k = 0\<close>), \<open>isPlaying\<close> is true
  and the cursor is the clock plus \<open>0.1 + 0.32\<close>. In any state that is not playing,
  \<open>addPCM16\<close> sets \<open>isPlaying\<close> and the cursor to the clock plus \<open>0.1\<close> and runs the
  scheduler from there, so that every source the call starts, starts at the clock plus
  \<open>0.1\<close> or later.
\<close>

theorem frame_slicing:
  "(length_u8 chunk div 2 = bufferSize + k \<and> k < bufferSize \<longrightarrow>
      map data (started (addPCM16 now chunk (construct st reg)))
        = [take bufferSize (fst (decode chunk))] \<and>
      length (take bufferSize (fst (decode chunk))) = bufferSize \<and>
      map startTime (started (addPCM16 now chunk (construct st reg))) = [now + 1 / 10] \<and>
      audioQueue (addPCM16 now chunk (construct st reg)) = [] \<and>
      processingBuffer (addPCM16 now chunk (construct st reg))
        = drop bufferSize (fst (decode chunk)) \<and>
      length (processingBuffer (addPCM16 now chunk (construct st reg))) = k \<and>
      isPlaying (addPCM16 now chunk (construct st reg)) \<and>
      scheduledTime (addPCM16 now chunk (construct st reg)) = now + 1 / 10 + 8 / 25) \<and>
   (\<not> isPlaying s \<longrightarrow>
      (\<exists>t. isPlaying t \<and> scheduledTime t = now + 1 / 10 \<and>
           addPCM16 now chunk s = scheduleNextBuffer now t) \<and>
      (\<exists>subs. started (addPCM16 now chunk s) = started s @ subs \<and>
              (\<forall>x \<in> set subs. now + 1 / 10 \<le> startTime x)))"
proof -
  have "length (fst (decode chunk)) = bufferSize + k" if "length_u8 chunk div 2 = bufferSize + k"
    using that by (simp add: length_decode)
  then show ?thesis
    using addPCM16_one_frame [of chunk k now st reg] addPCM16_activates [of s now chunk]
    by (simp add: grows_def)
qed

theorem frame_slicing_witness:
  "length_u8 \<lparr>buffer = replicate 15362 0, byteOffset = 0, length_u8 = 15362\<rparr> div 2
     = bufferSize + 1 \<and>
   \<not> isPlaying (construct Running []) \<and>
   length (processingBuffer
     (addPCM16 0 \<lparr>buffer = replicate 15362 0, byteOffset = 0, length_u8 = 15362\<rparr>
        (construct Running []))) = 1 \<and>
   map startTime (started
     (addPCM16 0 \<lparr>buffer = replicate 15362 0, byteOffset = 0, length_u8 = 15362\<rparr>
        (construct Running []))) = [1 / 10] \<and>
   audioQueue
     (addPCM16 0 \<lparr>buffer = replicate 15362 0, byteOffset = 0, length_u8 = 15362\<rparr>
        (construct Running [])) = []"
  using frame_slicing
          [of "\<lparr>buffer = replicate 15362 0, byteOffset = 0, length_u8 = 15362\<rparr>" 1 0
              Running "[]" "construct Running []"]
  by (simp add: bufferSize_def length_decode) (simp add: construct_def)

subsection \<open>C4: start times and the cursor\<close>

text \<open>
  The claim includes that the cursor is reset only by \<open>resume\<close> and \<open>stop\<close>. \<open>addPCM16\<close>
  assigns it as well when the streamer is not playing (lines 106-109), and \<open>complete\<close>
  followed by the last frame leaves the streamer not playing with the cursor at the end
  of that frame: the next \<open>addPCM16\<close> puts the cursor back to the clock plus \<open>0.1\<close>,
  before the end of the frame.
\<close>

theorem addPCM16_lowers_cursor:
  "scheduledTime
     (run [(0, AddPCM16 \<lparr>buffer = [1, 0], byteOffset = 0, length_u8 = 2\<rparr>), (0, Complete),
           (0, AddPCM16 \<lparr>buffer = [1, 0], byteOffset = 0, length_u8 = 2\<rparr>)]
        (construct Running []))
   < scheduledTime
     (run [(0, AddPCM16 \<lparr>buffer = [1, 0], byteOffset = 0, length_u8 = 2\<rparr>), (0, Complete)]
        (construct Running []))"
  by (simp add: model_defs)

text \<open>
  C4, as the code has it. Each round of the scheduler's loop starts its source at the
  larger of the cursor and the clock, hence not before the clock, and moves the cursor to
  the end of that frame. Whatever happens to a streamer, the sources it starts are added
  after those started before, each with a start time at or after the clock of that
  moment. The cursor never decreases, except that \<open>resume\<close>, \<open>stop\<close> and an \<open>addPCM16\<close>
  call made while not playing assign it anew.
\<close>

theorem cursor_monotone:
  "started (submit now a s) =
     started s @ [\<lparr>src = nodeCount s, data = a, startTime = max (scheduledTime s) now,
                   gain = gainNode s, taps = workletNodes (registeredWorklets s)\<rparr>] \<and>
   now \<le> max (scheduledTime s) now \<and>
   scheduledTime (submit now a s) = max (scheduledTime s) now + duration a \<and>
   (\<exists>subs. started (step now e s) = started s @ subs \<and>
           (\<forall>x \<in> set subs. now \<le> startTime x)) \<and>
   (\<not> restarts s e \<longrightarrow> scheduledTime s \<le> scheduledTime (step now e s))"
  using step_grows [of now s e] step_cursor [of s e now]
  by (simp add: started_submit scheduledTime_submit grows_def)

theorem cursor_monotone_witness:
  "\<not> restarts
       (run [(0, AddPCM16 \<lparr>buffer = [1, 0], byteOffset = 0, length_u8 = 2\<rparr>)] (construct Running []))
       Complete \<and>
   scheduledTime
       (run [(0, AddPCM16 \<lparr>buffer = [1, 0], byteOffset = 0, length_u8 = 2\<rparr>)] (construct Running []))
     \<le> scheduledTime (step 0 Complete
       (run [(0, AddPCM16 \<lparr>buffer = [1, 0], byteOffset = 0, length_u8 = 2\<rparr>)] (construct Running []))) \<and>
   map startTime (started (step 0 Complete
       (run [(0, AddPCM16 \<lparr>buffer = [1, 0], byteOffset = 0, length_u8 = 2\<rparr>)] (construct Running []))))
     = [1 / 10]"
  using cursor_monotone
          [of 0 "[]" "run [(0, AddPCM16 \<lparr>buffer = [1, 0], byteOffset = 0, length_u8 = 2\<rparr>)]
                        (construct Running [])" Complete]
  by (simp add: restarts_def) (simp add: model_defs)

subsection \<open>C5: how often onComplete fires\<close>




subsection \<open>C6: stop\<close>

text \<open>
  The claim includes that \<open>stop\<close> cancels any armed poll or re-arm timer. \<open>stop\<close> clears
  the interval in \<open>checkInterval\<close>; the handle of the \<open>setTimeout\<close> of line 205 is not kept
  anywhere, so a pending re-arm is still pending after \<open>stop\<close>.
\<close>

theorem stop_leaves_rearm_timer:
  "timers (run [(0, AddPCM16 \<lparr>buffer = [1, 0], byteOffset = 0, length_u8 = 2\<rparr>), (0, Stop)]
             (construct Running []))
     = [(1, Timeout ScheduleNext 50), (2, Timeout RebuildGain 200)]"
  by (simp add: model_defs)

text \<open>
  C6, as the code has it. After \<open>stop\<close>: \<open>isPlaying\<close> is false, \<open>isStreamComplete\<close> is true,
  the queue and the remainder buffer are empty, the cursor is the clock reading of the
  call, and \<open>checkInterval\<close> is null. The timers are those there were, without the polling
  interval, and the timeout that will rebuild the gain node: a pending re-arm stays. From
  then on, whatever happens other than \<open>addPCM16\<close> (timers firing, sources ending,
  \<open>complete\<close>, \<open>resume\<close>, \<open>stop\<close>, \<open>addWorklet\<close>), no source is started and the queue and the
  remainder buffer stay empty.
\<close>

theorem stop_semantics:
  "\<not> isPlaying (stop now s) \<and> isStreamComplete (stop now s) \<and>
   audioQueue (stop now s) = [] \<and> processingBuffer (stop now s) = [] \<and>
   scheduledTime (stop now s) = now \<and> checkInterval (stop now s) = None \<and>
   timers (stop now s) =
     filter (\<lambda>(i, t). Some i \<noteq> checkInterval s) (timers s) @
       [(Suc (timerCount s), Timeout RebuildGain 200)] \<and>
   ((\<forall>(t, e) \<in> set evs. \<not> isAddPCM16 e) \<longrightarrow>
      started (run evs (stop now s)) = started s \<and>
      audioQueue (run evs (stop now s)) = [] \<and>
      processingBuffer (run evs (stop now s)) = [])"
  using quiet_run [of "stop now s" evs]
  by (simp add: stop_fields)

theorem stop_semantics_witness:
  "timers (stop 1 (addPCM16 0 \<lparr>buffer = [1, 0], byteOffset = 0, length_u8 = 2\<rparr>
                     (construct Running [])))
     = [(1, Timeout ScheduleNext 50), (2, Timeout RebuildGain 200)] \<and>
   started (run [(2, Fire 1), (3, Complete), (4, Fire 2)]
             (stop 1 (addPCM16 0 \<lparr>buffer = [1, 0], byteOffset = 0, length_u8 = 2\<rparr>
                        (construct Running [])))) = [] \<and>
   audioQueue (run [(2, Fire 1), (3, Complete), (4, Fire 2)]
             (stop 1 (addPCM16 0 \<lparr>buffer = [1, 0], byteOffset = 0, length_u8 = 2\<rparr>
                        (construct Running [])))) = []"
  using stop_semantics
          [of 1 "addPCM16 0 \<lparr>buffer = [1, 0], byteOffset = 0, length_u8 = 2\<rparr> (construct Running [])"
              "[(2, Fire 1), (3, Complete), (4, Fire 2)]"]
  by (simp add: isAddPCM16_def) (simp add: model_defs)

subsection \<open>C7: complete\<close>

text \<open>
  C7. \<open>complete\<close> sets \<open>isStreamComplete\<close>. With a non-empty remainder buffer, the buffer
  becomes one more frame at the end of the queue, the buffer is emptied, the scheduler
  runs at once when \<open>isPlaying\<close> holds (and not otherwise), and \<open>onComplete\<close> is not called.
  With an empty remainder buffer, \<open>onComplete\<close> is called once and nothing else changes:
  no source is started and no timer is set.
\<close>

theorem complete_semantics:
  "isStreamComplete (complete now s) \<and>
   (processingBuffer s \<noteq> [] \<longrightarrow>
      complete now s =
        (if isPlaying s then scheduleNextBuffer now else id)
          (s\<lparr>isStreamComplete := True, audioQueue := audioQueue s @ [processingBuffer s],
             processingBuffer := []\<rparr>) \<and>
      frames (complete now s) = frames s @ [processingBuffer s] \<and>
      processingBuffer (complete now s) = [] \<and>
      completed (complete now s) = completed s) \<and>
   (processingBuffer s = [] \<longrightarrow>
      complete now s = s\<lparr>isStreamComplete := True, completed := Suc (completed s)\<rparr>)"
proof -
  have 1: "isStreamComplete (complete now s)"
    by (simp add: complete_def Let_def scheduleNextBuffer_keeps onComplete_def)
  have 2: "complete now s = s\<lparr>isStreamComplete := True, completed := Suc (completed s)\<rparr>"
    if "processingBuffer s = []"
    using that by (simp add: complete_def Let_def onComplete_def)
  have 3: "complete now s =
        (if isPlaying s then scheduleNextBuffer now else id)
          (s\<lparr>isStreamComplete := True, audioQueue := audioQueue s @ [processingBuffer s],
             processingBuffer := []\<rparr>)"
    if "processingBuffer s \<noteq> []"
    using that by (simp add: complete_def Let_def)
  have 4: "frames (complete now s) = frames s @ [processingBuffer s]"
    if "processingBuffer s \<noteq> []"
    using that by (simp add: 3 frames_scheduleNextBuffer) (simp add: frames_def)
  have 5: "processingBuffer (complete now s) = []" if "processingBuffer s \<noteq> []"
    using that by (simp add: 3 scheduleNextBuffer_keeps)
  have 6: "completed (complete now s) = completed s" if "processingBuffer s \<noteq> []"
    using that by (simp add: completed_complete)
  from 1 2 3 4 5 6 show ?thesis
    by blast
qed

theorem complete_semantics_witness:
  "processingBuffer (construct Running []) = [] \<and>
   complete 0 (construct Running []) =
     (construct Running [])\<lparr>isStreamComplete := True, completed := Suc 0\<rparr> \<and>
   processingBuffer
     (addPCM16 0 \<lparr>buffer = [1, 0], byteOffset = 0, length_u8 = 2\<rparr> (construct Running []))
     \<noteq> [] \<and>
   frames (complete 0
     (addPCM16 0 \<lparr>buffer = [1, 0], byteOffset = 0, length_u8 = 2\<rparr> (construct Running [])))
     = [[1 / 32768]] \<and>
   processingBuffer (complete 0
     (addPCM16 0 \<lparr>buffer = [1, 0], byteOffset = 0, length_u8 = 2\<rparr> (construct Running [])))
     = []"
  using complete_semantics [of 0 "construct Running []"]
    complete_semantics
      [of 0 "addPCM16 0 \<lparr>buffer = [1, 0], byteOffset = 0, length_u8 = 2\<rparr> (construct Running [])"]
  by (simp add: model_defs frames_def)

subsection \<open>C8: the end-of-queue marker\<close>

text \<open>
  C8. In every state a streamer can reach, among the sources that have not ended at most
  one still has the completion handler, and it is the source in
  \<open>endOfQueueAudioSource\<close>. When a source is started and the queue is empty after it,
  the handler is taken from the marker before, and the new source becomes the marker
  and gets the handler. The end of a source that is not the marker does not call
  \<open>onComplete\<close>.
\<close>

theorem marker_invariant:
  "armed (run evs (construct st reg)) \<subseteq> set_option (endOfQueueAudioSource (run evs (construct st reg))) \<and>
   card (armed (run evs (construct st reg))) \<le> 1 \<and>
   (endOfQueueAudioSource (run evs (construct st reg)) = Some old \<longrightarrow>
      old \<notin> onended (submit now a ((run evs (construct st reg))\<lparr>audioQueue := []\<rparr>)) \<and>
      endOfQueueAudioSource (submit now a ((run evs (construct st reg))\<lparr>audioQueue := []\<rparr>))
        = Some (nodeCount (run evs (construct st reg))) \<and>
      nodeCount (run evs (construct st reg))
        \<in> onended (submit now a ((run evs (construct st reg))\<lparr>audioQueue := []\<rparr>))) \<and>
   (endOfQueueAudioSource (run evs (construct st reg)) \<noteq> Some x \<longrightarrow>
      completed (sourceEnded x (run evs (construct st reg))) = completed (run evs (construct st reg)))"
proof -
  let ?s = "run evs (construct st reg)"
  have inv: "markerInv ?s"
    by (rule markerInv_run [OF markerInv_construct])
  then have sub: "armed ?s \<subseteq> set_option (endOfQueueAudioSource ?s)"
    by (simp add: markerInv_def)
  have "card (set_option (endOfQueueAudioSource ?s)) \<le> 1"
    by (cases "endOfQueueAudioSource ?s") simp_all
  moreover have "card (armed ?s) \<le> card (set_option (endOfQueueAudioSource ?s))"
    by (rule card_mono [OF _ sub]) simp
  ultimately have "card (armed ?s) \<le> 1" by simp
  with sub supersede [OF inv] stale_ended [of ?s x] show ?thesis
    by blast
qed

theorem marker_invariant_witness:
  "endOfQueueAudioSource
     (run [(0, AddPCM16 \<lparr>buffer = [1, 0], byteOffset = 0, length_u8 = 2\<rparr>), (0, Complete),
           (0, AddPCM16 \<lparr>buffer = [1, 0], byteOffset = 0, length_u8 = 2\<rparr>), (0, Complete)]
        (construct Running [])) = Some 3 \<and>
   endOfQueueAudioSource
     (run [(0, AddPCM16 \<lparr>buffer = [1, 0], byteOffset = 0, length_u8 = 2\<rparr>), (0, Complete),
           (0, AddPCM16 \<lparr>buffer = [1, 0], byteOffset = 0, length_u8 = 2\<rparr>), (0, Complete)]
        (construct Running [])) \<noteq> Some 2 \<and>
   armed
     (run [(0, AddPCM16 \<lparr>buffer = [1, 0], byteOffset = 0, length_u8 = 2\<rparr>), (0, Complete),
           (0, AddPCM16 \<lparr>buffer = [1, 0], byteOffset = 0, length_u8 = 2\<rparr>), (0, Complete)]
        (construct Running [])) = {3} \<and>
   completed (sourceEnded 2
     (run [(0, AddPCM16 \<lparr>buffer = [1, 0], byteOffset = 0, length_u8 = 2\<rparr>), (0, Complete),
           (0, AddPCM16 \<lparr>buffer = [1, 0], byteOffset = 0, length_u8 = 2\<rparr>), (0, Complete)]
        (construct Running []))) = 0 \<and>
   3 \<notin> onended (submit 1 [0]
     ((run [(0, AddPCM16 \<lparr>buffer = [1, 0], byteOffset = 0, length_u8 = 2\<rparr>), (0, Complete),
            (0, AddPCM16 \<lparr>buffer = [1, 0], byteOffset = 0, length_u8 = 2\<rparr>), (0, Complete)]
        (construct Running []))\<lparr>audioQueue := []\<rparr>))"
  using marker_invariant
          [of "[(0, AddPCM16 \<lparr>buffer = [1, 0], byteOffset = 0, length_u8 = 2\<rparr>), (0, Complete),
                (0, AddPCM16 \<lparr>buffer = [1, 0], byteOffset = 0, length_u8 = 2\<rparr>), (0, Complete)]"
              Running "[]" 3 1 "[0]" 2]
  by (simp add: model_defs armed_def)

subsection \<open>C9: addWorklet\<close>

text \<open>
  The claim includes that a failed load leaves no entry for the name in the registry.
  The entry is made at line 57, before the \<open>try\<close>, and the \<open>catch\<close> logs and raises
  again without touching it; nothing in the module removes an entry.
\<close>

theorem addWorklet_failure_keeps_entry:
  "map_of (registeredWorklets
     (snd (addWorklet ''vumeter-out'' 0 (Some (LoadError ''load'')) (construct Running []))))
     ''vumeter-out'' = Some \<lparr>handlers = [0], node = None\<rparr>"
  by (simp add: addWorklet_def Let_def construct_def inheritedNames_def)

text \<open>
  C9, as the code has it. For a name without an entry (and not one that every object
  inherits), a failed load is logged and raised again, and the registry keeps an entry
  for the name with the handler and no node. For a name with an entry, the handler is
  added at the end of its list, the call succeeds, no node is created and nothing is
  logged.
\<close>

theorem addWorklet_registry:
  "(map_of (registeredWorklets s) workletName = None \<and> workletName \<notin> set inheritedNames \<longrightarrow>
      fst (addWorklet workletName handler (Some e) s) = Inl e \<and>
      console (snd (addWorklet workletName handler (Some e) s)) = console s @ [e] \<and>
      map_of (registeredWorklets (snd (addWorklet workletName handler (Some e) s))) workletName
        = Some \<lparr>handlers = [handler], node = None\<rparr>) \<and>
   (map_of (registeredWorklets s) workletName = Some graph \<longrightarrow>
      fst (addWorklet workletName handler outcome s) = Inr () \<and>
      map_of (registeredWorklets (snd (addWorklet workletName handler outcome s))) workletName
        = Some (graph\<lparr>handlers := handlers graph @ [handler]\<rparr>) \<and>
      nodeCount (snd (addWorklet workletName handler outcome s)) = nodeCount s \<and>
      console (snd (addWorklet workletName handler outcome s)) = console s)"
  by (simp add: addWorklet_def Let_def update_conv' map_add_def)

theorem addWorklet_registry_witness:
  "map_of (registeredWorklets (construct Running [])) ''vumeter-out'' = None \<and>
   ''vumeter-out'' \<notin> set inheritedNames \<and>
   fst (addWorklet ''vumeter-out'' 0 (Some (LoadError ''load'')) (construct Running []))
     = Inl (LoadError ''load'') \<and>
   console (snd (addWorklet ''vumeter-out'' 0 (Some (LoadError ''load'')) (construct Running [])))
     = [LoadError ''load''] \<and>
   map_of (registeredWorklets
     (snd (addWorklet ''vumeter-out'' 0 (Some (LoadError ''load'')) (construct Running []))))
     ''vumeter-out'' = Some \<lparr>handlers = [0], node = None\<rparr> \<and>
   map_of (registeredWorklets
     (snd (addWorklet ''vumeter-out'' 1 None
       (snd (addWorklet ''vumeter-out'' 0 (Some (LoadError ''load'')) (construct Running []))))))
     ''vumeter-out'' = Some \<lparr>handlers = [0, 1], node = None\<rparr>"
  using addWorklet_registry
          [where s = "construct Running []" and workletName = "''vumeter-out''" and handler = 0
             and e = "LoadError ''load''"]
        addWorklet_registry
          [where s = "snd (addWorklet ''vumeter-out'' 0 (Some (LoadError ''load''))
                            (construct Running []))"
             and workletName = "''vumeter-out''" and graph = "\<lparr>handlers = [0], node = None\<rparr>"
             and handler = 1 and outcome = None]
  by (simp add: construct_def inheritedNames_def)

subsection \<open>C10: stop and the marker\<close>

text \<open>
  The claim is that the marker of before \<open>stop\<close>, when it ends without having been
  superseded, finds the queue empty because \<open>stop\<close> emptied it. An \<open>addPCM16\<close> after
  \<open>stop\<close> can fill the queue again without superseding the marker: with two frames, the
  first is started while the second is still queued, so it does not become the marker
  (line 135), and the second stays queued behind the look-ahead window. The end of the
  old marker then finds a frame queued and does not call \<open>onComplete\<close>.
\<close>

theorem marker_end_finds_frame_queued:
  "endOfQueueAudioSource
     (run [(0, AddPCM16 \<lparr>buffer = [1, 0], byteOffset = 0, length_u8 = 2\<rparr>), (0, Complete)]
        (construct Running [])) = Some 2 \<and>
   endOfQueueAudioSource
     (addPCM16 2 \<lparr>buffer = replicate 30720 0, byteOffset = 0, length_u8 = 30720\<rparr>
        (run [(0, AddPCM16 \<lparr>buffer = [1, 0], byteOffset = 0, length_u8 = 2\<rparr>), (0, Complete),
              (1, Stop)] (construct Running []))) = Some 2 \<and>
   2 \<in> onended
     (addPCM16 2 \<lparr>buffer = replicate 30720 0, byteOffset = 0, length_u8 = 30720\<rparr>
        (run [(0, AddPCM16 \<lparr>buffer = [1, 0], byteOffset = 0, length_u8 = 2\<rparr>), (0, Complete),
              (1, Stop)] (construct Running []))) \<and>
   completed (sourceEnded 2
     (addPCM16 2 \<lparr>buffer = replicate 30720 0, byteOffset = 0, length_u8 = 30720\<rparr>
        (run [(0, AddPCM16 \<lparr>buffer = [1, 0], byteOffset = 0, length_u8 = 2\<rparr>), (0, Complete),
              (1, Stop)] (construct Running [])))) = 0"
proof -
  let ?s = "run [(0, AddPCM16 \<lparr>buffer = [1, 0], byteOffset = 0, length_u8 = 2\<rparr>), (0, Complete),
                 (1, Stop)] (construct Running [])"
  let ?c = "\<lparr>buffer = replicate 30720 0, byteOffset = 0, length_u8 = 30720\<rparr>"
  have s: "\<not> isPlaying ?s" "audioQueue ?s = []" "processingBuffer ?s = []"
    "endOfQueueAudioSource ?s = Some 2" "onended ?s = {2}" "finished ?s = {}" "completed ?s = 0"
    by (simp_all add: model_defs)
  have len: "length_u8 ?c div 2 = 2 * bufferSize"
    by (simp add: bufferSize_def)
  note a = addPCM16_two_frames [OF s(1) s(2) s(3) len, of 2]
  have q: "audioQueue (addPCM16 2 ?c ?s) \<noteq> []"
    by (simp only: a(1)) simp
  have st: "2 \<in> src ` set (started ?s)"
    by (simp add: model_defs)
  have st': "2 \<in> src ` set (started (addPCM16 2 ?c ?s))"
    using st a(6) by blast
  have m': "endOfQueueAudioSource (addPCM16 2 ?c ?s) = Some 2"
    by (simp only: a(2) s(4))
  have o': "2 \<in> onended (addPCM16 2 ?c ?s)"
    by (simp only: a(3) s(5)) simp
  have c': "completed (addPCM16 2 ?c ?s) = 0"
    by (simp only: a(5) s(7))
  have "sourceEnded 2 (addPCM16 2 ?c ?s) =
          (addPCM16 2 ?c ?s)\<lparr>finished := insert 2 (finished (addPCM16 2 ?c ?s))\<rparr>"
    using q st' o' unfolding sourceEnded_def endedHandler_def Let_def
    by (simp only: a(4) s(6)) simp
  then have e: "completed (sourceEnded 2 (addPCM16 2 ?c ?s)) = 0"
    using c' by simp
  have m: "endOfQueueAudioSource
     (run [(0, AddPCM16 \<lparr>buffer = [1, 0], byteOffset = 0, length_u8 = 2\<rparr>), (0, Complete)]
        (construct Running [])) = Some 2"
    by (simp add: model_defs)
  from m m' o' e show ?thesis by blast
qed

text \<open>
  C10, as the code has it. \<open>stop\<close> changes neither \<open>endOfQueueAudioSource\<close> nor any
  \<open>onended\<close>. Take a reachable state whose marker is a started source that has not ended
  and has its handler, then \<open>stop\<close>, then any events but the end of that source. If none
  of them is an \<open>addPCM16\<close>, the queue is empty and the source is still the marker. And
  whenever the source is still the marker, its end passes the identity test, and calls
  \<open>onComplete\<close> exactly when the queue is empty at that moment.
\<close>

theorem stop_keeps_marker:
  "endOfQueueAudioSource (stop now s) = endOfQueueAudioSource s \<and>
   onended (stop now s) = onended s \<and>
   (s = run past (construct st reg) \<and> endOfQueueAudioSource s = Some x \<and> x \<in> onended s \<and>
    x \<in> src ` set (started s) \<and> x \<notin> finished s \<and> Ended x \<notin> snd ` set evs \<longrightarrow>
      ((\<forall>(t, e) \<in> set evs. \<not> isAddPCM16 e) \<longrightarrow>
         audioQueue (run evs (stop now s)) = [] \<and>
         endOfQueueAudioSource (run evs (stop now s)) = Some x) \<and>
      (endOfQueueAudioSource (run evs (stop now s)) = Some x \<longrightarrow>
         completed (sourceEnded x (run evs (stop now s))) =
           (if audioQueue (run evs (stop now s)) = []
            then Suc (completed (run evs (stop now s)))
            else completed (run evs (stop now s)))))"
proof -
  have 1: "endOfQueueAudioSource (stop now s) = endOfQueueAudioSource s"
    and 2: "onended (stop now s) = onended s"
    and 3: "finished (stop now s) = finished s"
    and 4: "nodeCount (stop now s) = nodeCount s"
    by (simp_all add: stop_def setTimer_def clearInterval_def Let_def split: option.split)
  let ?t = "run evs (stop now s)"
  have quiet: "audioQueue ?t = [] \<and> endOfQueueAudioSource ?t = Some x"
    if m: "endOfQueueAudioSource s = Some x" and f: "x \<notin> finished s"
      and nx: "Ended x \<notin> snd ` set evs" and na: "\<forall>(t, e) \<in> set evs. \<not> isAddPCM16 e"
  proof -
    from nx na have evs: "\<forall>(t, e) \<in> set evs. \<not> isAddPCM16 e \<and> e \<noteq> Ended x"
      by force
    have "audioQueue ?t = [] \<and> processingBuffer ?t = [] \<and>
          started ?t = started (stop now s) \<and> onended ?t = onended (stop now s)"
      by (rule quiet_run [OF _ _ na]) (simp_all add: stop_fields)
    moreover have "endOfQueueAudioSource ?t = Some x \<and> x \<notin> finished ?t"
      by (rule armed_run [OF _ _ _ _ evs]) (simp_all add: stop_fields 1 3 m f)
    ultimately show ?thesis by simp
  qed
  have fire: "completed (sourceEnded x ?t) =
           (if audioQueue ?t = [] then Suc (completed ?t) else completed ?t)"
    if r: "s = run past (construct st reg)" and m: "endOfQueueAudioSource s = Some x"
      and o: "x \<in> onended s" and st: "x \<in> src ` set (started s)" and f: "x \<notin> finished s"
      and nx: "Ended x \<notin> snd ` set evs" and m': "endOfQueueAudioSource ?t = Some x"
  proof -
    have "markerInv s"
      unfolding r by (rule markerInv_run [OF markerInv_construct])
    with m have "x < nodeCount s" by (simp add: markerInv_def)
    with m o st f have "pending x (stop now s)"
      by (simp add: pending_def 1 2 3 4 stop_fields)
    then have "pending x ?t"
      using nx by (rule pending_run)
    with m' show ?thesis
      by (simp add: pending_def sourceEnded_def endedHandler_def onComplete_def Let_def)
  qed
  from 1 2 quiet fire show ?thesis by blast
qed

theorem stop_keeps_marker_witness:
  "endOfQueueAudioSource
     (run [(0, AddPCM16 \<lparr>buffer = [1, 0], byteOffset = 0, length_u8 = 2\<rparr>), (0, Complete)]
        (construct Running [])) = Some 2 \<and>
   completed (run [(2, Fire 1), (3, Resume None)] (stop 1
     (run [(0, AddPCM16 \<lparr>buffer = [1, 0], byteOffset = 0, length_u8 = 2\<rparr>), (0, Complete)]
        (construct Running [])))) = 0 \<and>
   completed (sourceEnded 2 (run [(2, Fire 1), (3, Resume None)] (stop 1
     (run [(0, AddPCM16 \<lparr>buffer = [1, 0], byteOffset = 0, length_u8 = 2\<rparr>), (0, Complete)]
        (construct Running []))))) = 1 \<and>
   endOfQueueAudioSource
     (run [(2, AddPCM16 \<lparr>buffer = [3, 0], byteOffset = 0, length_u8 = 2\<rparr>)] (stop 1
       (run [(0, AddPCM16 \<lparr>buffer = [1, 0], byteOffset = 0, length_u8 = 2\<rparr>), (0, Complete)]
          (construct Running [])))) = Some 2 \<and>
   completed (sourceEnded 2
     (run [(2, AddPCM16 \<lparr>buffer = [3, 0], byteOffset = 0, length_u8 = 2\<rparr>)] (stop 1
       (run [(0, AddPCM16 \<lparr>buffer = [1, 0], byteOffset = 0, length_u8 = 2\<rparr>), (0, Complete)]
          (construct Running []))))) = 1"
proof -
  let ?s = "run [(0, AddPCM16 \<lparr>buffer = [1, 0], byteOffset = 0, length_u8 = 2\<rparr>), (0, Complete)]
              (construct Running [])"
  have s: "endOfQueueAudioSource ?s = Some 2" "2 \<in> onended ?s" "2 \<in> src ` set (started ?s)"
    "2 \<notin> finished ?s"
    by (simp_all add: model_defs)
  note t1 = stop_keeps_marker
          [where now = 1 and x = 2 and st = Running and reg = "[]" and s = ?s
             and past = "[(0, AddPCM16 \<lparr>buffer = [1, 0], byteOffset = 0, length_u8 = 2\<rparr>), (0, Complete)]"
             and evs = "[(2, Fire 1), (3, Resume None)]"]
  note t2 = stop_keeps_marker
          [where now = 1 and x = 2 and st = Running and reg = "[]" and s = ?s
             and past = "[(0, AddPCM16 \<lparr>buffer = [1, 0], byteOffset = 0, length_u8 = 2\<rparr>), (0, Complete)]"
             and evs = "[(2, AddPCM16 \<lparr>buffer = [3, 0], byteOffset = 0, length_u8 = 2\<rparr>)]"]
  have e1: "Ended 2 \<notin> snd ` set [(2::rat, Fire 1), (3, Resume None)]"
    and n1: "\<forall>(t, e) \<in> set [(2::rat, Fire 1), (3, Resume None)]. \<not> isAddPCM16 e"
    and e2: "Ended 2 \<notin> snd ` set [(2::rat, AddPCM16 \<lparr>buffer = [3, 0], byteOffset = 0, length_u8 = 2\<rparr>)]"
    by (simp_all add: isAddPCM16_def)
  have c1: "completed (run [(2, Fire 1), (3, Resume None)] (stop 1 ?s)) = 0"
    by (simp add: model_defs)
  have m2: "endOfQueueAudioSource
      (run [(2, AddPCM16 \<lparr>buffer = [3, 0], byteOffset = 0, length_u8 = 2\<rparr>)] (stop 1 ?s)) = Some 2"
    and q2: "audioQueue
      (run [(2, AddPCM16 \<lparr>buffer = [3, 0], byteOffset = 0, length_u8 = 2\<rparr>)] (stop 1 ?s)) = []"
    and c2: "completed
      (run [(2, AddPCM16 \<lparr>buffer = [3, 0], byteOffset = 0, length_u8 = 2\<rparr>)] (stop 1 ?s)) = 0"
    by (simp_all add: model_defs)
  from t1 s e1 n1 have "completed (sourceEnded 2 (run [(2, Fire 1), (3, Resume None)] (stop 1 ?s))) =
      Suc (completed (run [(2, Fire 1), (3, Resume None)] (stop 1 ?s)))"
    by (simp only: refl simp_thms if_True)
  with c1 have r1: "completed (sourceEnded 2 (run [(2, Fire 1), (3, Resume None)] (stop 1 ?s))) = 1"
    by (simp only: One_nat_def)
  from t2 s e2 m2 q2 have "completed (sourceEnded 2
      (run [(2, AddPCM16 \<lparr>buffer = [3, 0], byteOffset = 0, length_u8 = 2\<rparr>)] (stop 1 ?s))) =
      Suc (completed (run [(2, AddPCM16 \<lparr>buffer = [3, 0], byteOffset = 0, length_u8 = 2\<rparr>)] (stop 1 ?s)))"
    by (simp only: refl simp_thms if_True)
  with c2 have r2: "completed (sourceEnded 2
      (run [(2, AddPCM16 \<lparr>buffer = [3, 0], byteOffset = 0, length_u8 = 2\<rparr>)] (stop 1 ?s))) = 1"
    by (simp only: One_nat_def)
  from s(1) c1 r1 m2 r2 show ?thesis by blast
qed

end
